theory Spec2Isabelle
  imports Complex_Main "HOL-Library.Sublist"
begin

section \<open>Python strings\<close>

text \<open>
  A Python \<open>str\<close> is the sequence of its Unicode code points, so a text is a list of
  natural numbers. \<open>py\<close> reads an ASCII literal as such a text.
\<close>

type_synonym pystr = "nat list"

definition py :: "string \<Rightarrow> pystr" where
  "py s = map of_char s"

abbreviation NL :: nat where "NL \<equiv> 10"
abbreviation LPAREN :: nat where "LPAREN \<equiv> 40"
abbreviation RPAREN :: nat where "RPAREN \<equiv> 41"
abbreviation LBRACE :: nat where "LBRACE \<equiv> 123"
abbreviation RBRACE :: nat where "RBRACE \<equiv> 125"

text \<open>
  \<open>str.isspace\<close>, which is also what \<open>str.strip()\<close> removes and what \<open>\s\<close> matches in a
  \<open>str\<close> pattern: the code points U+0009..U+000D, U+001C..U+0020, U+0085, U+00A0, U+1680,
  U+2000..U+200A, U+2028, U+2029, U+202F, U+205F and U+3000.
\<close>

definition is_space :: "nat \<Rightarrow> bool" where
  "is_space c \<longleftrightarrow>
     (9 \<le> c \<and> c \<le> 13) \<or> (28 \<le> c \<and> c \<le> 32) \<or> c = 133 \<or> c = 160 \<or> c = 5760 \<or>
     (8192 \<le> c \<and> c \<le> 8202) \<or> c = 8232 \<or> c = 8233 \<or> c = 8239 \<or> c = 8287 \<or> c = 12288"

text \<open>The character classes \<open>[a-zA-Z_]\<close> and \<open>[a-zA-Z0-9_]\<close> (no flag: ASCII only).\<close>

definition is_ident_start :: "nat \<Rightarrow> bool" where
  "is_ident_start c \<longleftrightarrow> (97 \<le> c \<and> c \<le> 122) \<or> (65 \<le> c \<and> c \<le> 90) \<or> c = 95"

definition is_ident_char :: "nat \<Rightarrow> bool" where
  "is_ident_char c \<longleftrightarrow> is_ident_start c \<or> (48 \<le> c \<and> c \<le> 57)"

text \<open>\<open>s.strip()\<close>: leading and trailing whitespace removed.\<close>

definition strip :: "pystr \<Rightarrow> pystr" where
  "strip s = rev (dropWhile is_space (rev (dropWhile is_space s)))"

text \<open>\<open>s.count(c)\<close> for a one-character \<open>c\<close>.\<close>

definition count :: "pystr \<Rightarrow> nat \<Rightarrow> int" where
  "count s c = int (count_list s c)"

text \<open>
  \<open>s.split("\n")\<close>: never empty; the text after the last newline is the last element (the
  second branch of the \<open>case\<close> is never taken).
\<close>

fun split_nl :: "pystr \<Rightarrow> pystr list" where
  "split_nl [] = [[]]"
| "split_nl (c # cs) =
     (if c = NL then [] # split_nl cs
      else (case split_nl cs of l # ls \<Rightarrow> (c # l) # ls | [] \<Rightarrow> [[c]]))"

text \<open>\<open>"\n".join(lines)\<close>.\<close>

fun join_nl :: "pystr list \<Rightarrow> pystr" where
  "join_nl [] = []"
| "join_nl [l] = l"
| "join_nl (l # ls) = l @ NL # join_nl ls"

text \<open>\<open>needle in s\<close> is \<^const>\<open>sublist\<close>: \<open>needle\<close> occurs in \<open>s\<close> as a contiguous run.\<close>

section \<open>consolidate\_duplicates.py: the function remover\<close>

text \<open>
  \<open>re.match(r"^([a-zA-Z_][a-zA-Z0-9_]*)\s*\(\)\s*\{", s)\<close>, returning group 1. The
  identifier class, \<open>\s\<close>, \<open>(\<close> and \<open>{\<close> are pairwise disjoint, so the greedy
  repetitions never give a character back: the name is the longest run of identifier
  characters, and each \<open>\s*\<close> takes all the whitespace that follows.
\<close>

definition function_match :: "pystr \<Rightarrow> pystr option" where
  "function_match s =
     (case s of
        [] \<Rightarrow> None
      | c # cs \<Rightarrow>
          if is_ident_start c then
            (case dropWhile is_space (dropWhile is_ident_char cs) of
               p # q # r \<Rightarrow>
                 if p = LPAREN \<and> q = RPAREN then
                   (case dropWhile is_space r of
                      b # _ \<Rightarrow> if b = LBRACE then Some (c # takeWhile is_ident_char cs) else None
                    | [] \<Rightarrow> None)
                 else None
             | _ \<Rightarrow> None)
          else None)"

text \<open>
  The loop of \<open>remove_duplicate_functions\<close>, over the lines still to read (\<open>lines[i:]\<close>),
  with the loop's variables \<open>skip_until_end\<close>, \<open>brace_count\<close> and \<open>new_lines\<close>.
\<close>

fun remove_loop :: "pystr set \<Rightarrow> pystr list \<Rightarrow> bool \<Rightarrow> int \<Rightarrow> pystr list \<Rightarrow> pystr list" where
  "remove_loop F [] skip_until_end brace_count new_lines = new_lines"
| "remove_loop F (line # rest) skip_until_end brace_count new_lines =
     (if skip_until_end then
        (let brace_count = brace_count + count line LBRACE - count line RBRACE in
         if brace_count \<le> 0 then remove_loop F rest False 0 new_lines
         else remove_loop F rest True brace_count new_lines)
      else
        (case function_match (strip line) of
           Some func_name \<Rightarrow>
             if func_name \<in> F then
               remove_loop F rest True (count line LBRACE - count line RBRACE) new_lines
             else remove_loop F rest False brace_count (new_lines @ [line])
         | None \<Rightarrow> remove_loop F rest False brace_count (new_lines @ [line])))"

definition remove_duplicate_functions :: "pystr \<Rightarrow> pystr set \<Rightarrow> pystr" where
  "remove_duplicate_functions content functions_to_remove =
     join_nl (remove_loop functions_to_remove (split_nl content) False 0 [])"

text \<open>A line is the header of a function to delete.\<close>

definition is_removed_header :: "pystr set \<Rightarrow> pystr \<Rightarrow> bool" where
  "is_removed_header F line =
     (case function_match (strip line) of Some func_name \<Rightarrow> func_name \<in> F | None \<Rightarrow> False)"

text \<open>A text without its trailing whitespace, and a text that is not all whitespace.\<close>

definition rstrip :: "pystr \<Rightarrow> pystr" where
  "rstrip t = rev (dropWhile is_space (rev t))"

definition has_ink :: "pystr \<Rightarrow> bool" where
  "has_ink t \<longleftrightarrow> (\<exists>x \<in> set t. \<not> is_space x)"

text \<open>A text whose only header is indented.\<close>

definition indented_input :: pystr where
  "indented_input = py ''  foo() {\<newline>  :\<newline>}\<newline>bar''"

text \<open>The text of the nested-braces scenario, and the same text with no brace on line 3.\<close>

definition nested_input :: pystr where
  \<open>nested_input = py ''foo() {\<newline>  if true; then\<newline>    echo "{"\<newline>  fi\<newline>}\<newline>bar() {\<newline>  echo ok\<newline>}\<newline>''\<close>

definition nested_input_plain :: pystr where
  \<open>nested_input_plain = py ''foo() {\<newline>  if true; then\<newline>    echo "x"\<newline>  fi\<newline>}\<newline>bar() {\<newline>  echo ok\<newline>}\<newline>''\<close>

definition bar_block :: pystr where
  "bar_block = py ''bar() {\<newline>  echo ok\<newline>}\<newline>''"

section \<open>consolidate\_duplicates.py: the framework-import injector\<close>

text \<open>The sets \<open>self.test_functions\<close> and \<open>self.ui_functions\<close>.\<close>

definition test_functions :: "pystr set" where
  "test_functions = {py ''test_pass'', py ''test_fail'', py ''assert'',
     py ''setup_test_environment'', py ''cleanup_test_environment'', py ''create_test_config'',
     py ''print_test_header'', py ''start_timer'', py ''end_timer'', py ''assert_performance''}"

definition ui_functions :: "pystr set" where
  "ui_functions = {py ''print_header'', py ''print_success'', py ''print_error'',
     py ''print_warning'', py ''print_info'', py ''print_separator'', py ''print_dim'',
     py ''print_status''}"

text \<open>\<open>any(func in content for func in ...)\<close>.\<close>

definition should_add_test_framework :: "pystr \<Rightarrow> bool" where
  "should_add_test_framework content \<longleftrightarrow> (\<exists>func \<in> test_functions. sublist func content)"

definition should_add_ui_framework :: "pystr \<Rightarrow> bool" where
  "should_add_ui_framework content \<longleftrightarrow> (\<exists>func \<in> ui_functions. sublist func content)"

text \<open>The two import blocks of \<open>add_framework_import\<close>.\<close>

definition test_import_block :: pystr where
  \<open>test_import_block = py ''\<newline># Load unified test framework\<newline>if [[ -f "${SERVERSENTRY_ROOT}/tests/lib/test_framework_core.sh" ]]; then\<newline>  source "${SERVERSENTRY_ROOT}/tests/lib/test_framework_core.sh"\<newline>fi\<newline>''\<close>

definition ui_import_block :: pystr where
  \<open>ui_import_block = py ''\<newline># Load unified UI framework\<newline>if [[ -f "${SERVERSENTRY_ROOT}/lib/ui/common/print_utils.sh" ]]; then\<newline>  source "${SERVERSENTRY_ROOT}/lib/ui/common/print_utils.sh"\<newline>fi\<newline>''\<close>

text \<open>
  \<open>s.lower()\<close>, on the ASCII letters. Python lowers other code points too, but the lowercase of
  a code point outside ASCII holds no letter of \<open>bootstrap\<close> (only U+0130 and U+212A lower to
  text with an ASCII letter, \<open>i\<close> and \<open>k\<close>), so the test \<open>"bootstrap" in s.lower()\<close>, the only
  use of \<open>lower\<close>, reads the same.
\<close>

definition lower :: "pystr \<Rightarrow> pystr" where
  "lower s = map (\<lambda>c. if 65 \<le> c \<and> c \<le> 90 then c + 32 else c) s"

text \<open>
  The inner loop of \<open>add_framework_import\<close>, over \<open>lines[j:]\<close>: \<open>joined\<close> is
  \<open>"".join(lines[i:j])\<close>. The result is \<open>j + 1\<close> for the first \<open>j\<close> whose line is \<open>fi\<close> once
  stripped, with \<open>bootstrap\<close> in the lowered text of the lines from the marker's to it.
\<close>

fun find_fi :: "pystr list \<Rightarrow> pystr \<Rightarrow> nat \<Rightarrow> nat option" where
  "find_fi [] joined j = None"
| "find_fi (l # ls) joined j =
     (if strip l = py ''fi'' \<and> sublist (py ''bootstrap'') (lower joined) then Some (j + 1)
      else find_fi ls (joined @ l) (j + 1))"

text \<open>
  The outer loop, over \<open>lines[i:]\<close>: only the first line holding \<open>SERVERSENTRY_ENV_LOADED\<close>
  is looked at (\<open>break\<close>), and \<open>insert_index\<close> stays 0 when the inner loop finds nothing.
\<close>

fun find_insert_index :: "pystr list \<Rightarrow> nat \<Rightarrow> nat" where
  "find_insert_index [] i = 0"
| "find_insert_index (l # ls) i =
     (if sublist (py ''SERVERSENTRY_ENV_LOADED'') l then
        (case find_fi (l # ls) [] i of Some insert_index \<Rightarrow> insert_index | None \<Rightarrow> 0)
      else find_insert_index ls (i + 1))"

text \<open>\<open>lines.insert(i, x)\<close> with \<open>0 \<le> i\<close>: past the end it appends.\<close>

definition list_insert :: "'a list \<Rightarrow> nat \<Rightarrow> 'a \<Rightarrow> 'a list" where
  "list_insert xs i x = take i xs @ x # drop i xs"

definition add_framework_import :: "pystr \<Rightarrow> pystr \<Rightarrow> pystr" where
  "add_framework_import content framework_type =
     (if framework_type = py ''test'' \<or> framework_type = py ''ui'' then
        (let import_block = (if framework_type = py ''test'' then test_import_block else ui_import_block);
             lines = split_nl content;
             insert_index = find_insert_index lines 0
         in join_nl (list_insert lines insert_index import_block))
      else content)"

text \<open>
  The body of \<open>update_file\<close> between the read and the write: the new content and
  \<open>file_updated\<close>.
\<close>

definition update_content :: "pystr \<Rightarrow> pystr \<times> bool" where
  "update_content original_content =
     (let content = original_content; file_updated = False;
          (content, file_updated) =
            (if should_add_test_framework content then
               (let (content, file_updated) =
                      (if \<not> sublist (py ''test_framework_core.sh'') content
                       then (add_framework_import content (py ''test''), True)
                       else (content, file_updated));
                    content = remove_duplicate_functions content test_functions
                in (content, file_updated \<or> content \<noteq> original_content))
             else (content, file_updated));
          (content, file_updated) =
            (if should_add_ui_framework content then
               (let (content, file_updated) =
                      (if \<not> sublist (py ''print_utils.sh'') content
                       then (add_framework_import content (py ''ui''), True)
                       else (content, file_updated));
                    content = remove_duplicate_functions content ui_functions
                in (content, file_updated \<or> content \<noteq> original_content))
             else (content, file_updated))
      in (content, file_updated))"

text \<open>
  A test script whose helper loads the environment on demand, and a script that only calls
  a test helper.
\<close>

definition lazy_env_test :: pystr where
  \<open>lazy_env_test = py ''setup_test_environment() {\<newline>  if [[ -z "${SERVERSENTRY_ENV_LOADED:-}" ]]; then\<newline>    source "$ROOT/lib/serversentry-bootstrap.sh"\<newline>  fi\<newline>}\<newline>setup_test_environment\<newline>''\<close>

definition plain_test :: pystr where
  \<open>plain_test = py ''test_pass "ok"\<newline>''\<close>


text \<open>The comment lines that open the two import blocks.\<close>

definition test_block_comment :: pystr where
  "test_block_comment = py ''# Load unified test framework''"

definition ui_block_comment :: pystr where
  "ui_block_comment = py ''# Load unified UI framework''"

text \<open>The two halves of \<open>update_content\<close>, each on the content it is given.\<close>

definition test_stage :: "pystr \<Rightarrow> pystr" where
  "test_stage c =
     (if should_add_test_framework c then
        remove_duplicate_functions
          (if \<not> sublist (py ''test_framework_core.sh'') c
           then add_framework_import c (py ''test'') else c) test_functions
      else c)"

definition ui_stage :: "pystr \<Rightarrow> pystr" where
  "ui_stage c =
     (if should_add_ui_framework c then
        remove_duplicate_functions
          (if \<not> sublist (py ''print_utils.sh'') c
           then add_framework_import c (py ''ui'') else c) ui_functions
      else c)"


text \<open>No line of a text is the header of a function of \<open>F\<close>.\<close>

definition no_header :: "pystr set \<Rightarrow> pystr \<Rightarrow> bool" where
  "no_header F c \<longleftrightarrow> (\<forall>l \<in> set (split_nl c). \<not> is_removed_header F l)"


section \<open>Files\<close>

text \<open>
  The files of the project: a path has a content or does not exist. What can go wrong is
  fixed for a run by \<open>faults\<close>: a read that raises (also raised when the file is missing), a
  move or a removal that raises and changes nothing, a write that raises and leaves some
  content behind (the old content when \<open>open\<close> fails, a part of the new one when the device
  fills up), and a copy that raises and leaves the destination as it was or with a part
  of the source.
\<close>

type_synonym path = pystr
type_synonym files = "path \<rightharpoonup> pystr"

datatype copy_outcome = CopyDone | CopyRaises "pystr option"

record faults =
  read_fails :: "path \<Rightarrow> bool"
  copy_fault :: "path \<Rightarrow> copy_outcome"
  write_fault :: "path \<Rightarrow> pystr option"
  remove_fails :: "path \<Rightarrow> bool"
  move_fails :: "path \<Rightarrow> bool"

definition read_text :: "faults \<Rightarrow> files \<Rightarrow> path \<Rightarrow> pystr option" where
  "read_text env fs p = (if read_fails env p then None else fs p)"

definition write_text :: "faults \<Rightarrow> files \<Rightarrow> path \<Rightarrow> pystr \<Rightarrow> files + files" where
  "write_text env fs p new_content =
     (case write_fault env p of
        None \<Rightarrow> Inr (fs(p \<mapsto> new_content))
      | Some left \<Rightarrow> Inl (fs(p \<mapsto> left)))"

text \<open>
  \<open>shutil.copy2(src, dst)\<close>: \<open>Inr\<close> of the files after the copy, or \<open>Inl\<close> of the files it
  leaves when it raises.
\<close>

definition copy2 :: "faults \<Rightarrow> files \<Rightarrow> path \<Rightarrow> path \<Rightarrow> files + files" where
  "copy2 env fs src dst =
     (case fs src of
        None \<Rightarrow> Inl fs
      | Some b \<Rightarrow>
          (case copy_fault env src of
             CopyDone \<Rightarrow> Inr (fs(dst \<mapsto> b))
           | CopyRaises None \<Rightarrow> Inl fs
           | CopyRaises (Some left) \<Rightarrow> Inl (fs(dst \<mapsto> left))))"

definition remove_file :: "faults \<Rightarrow> files \<Rightarrow> path \<Rightarrow> files option" where
  "remove_file env fs p =
     (if remove_fails env p \<or> fs p = None then None else Some (fs(p := None)))"

definition move :: "faults \<Rightarrow> files \<Rightarrow> path \<Rightarrow> path \<Rightarrow> files option" where
  "move env fs src dst =
     (if move_fails env src then None
      else (case fs src of None \<Rightarrow> None | Some b \<Rightarrow> Some ((fs(dst \<mapsto> b))(src := None))))"

text \<open>What the scripts print for a file, and the state they work on.\<close>

datatype message =
    Updated path | ErrorUpdating path
  | Migrating path | NoChangesMade path | SuccessfullyMigrated path | ErrorMigrating path
  | StartingMigration | FoundShellFiles nat | FoundToMigrate nat | NoFilesNeedMigration
  | MigrationSummary nat nat nat | MigrationCompleted | MigrationCompletedWithErrors

record world =
  files :: files
  out :: "message list"

record consolidator = world +
  changes_made :: nat
  files_updated :: nat

text \<open>
  \<open>update_file\<close>: any exception is caught and reported, and the result is then \<open>False\<close>.
\<close>

definition update_file :: "faults \<Rightarrow> consolidator \<Rightarrow> path \<Rightarrow> consolidator \<times> bool" where
  "update_file env self file_path =
     (case read_text env (files self) file_path of
        None \<Rightarrow> (self\<lparr>out := out self @ [ErrorUpdating file_path]\<rparr>, False)
      | Some original_content \<Rightarrow>
          (let (content, file_updated) = update_content original_content in
           if file_updated \<and> content \<noteq> original_content then
             (case write_text env (files self) file_path content of
                Inl fs \<Rightarrow> (self\<lparr>files := fs, out := out self @ [ErrorUpdating file_path]\<rparr>, False)
              | Inr fs \<Rightarrow>
                  (self\<lparr>files := fs, out := out self @ [Updated file_path],
                        files_updated := files_updated self + 1,
                        changes_made := changes_made self + 1\<rparr>, True))
           else (self, False)))"

definition no_faults :: faults where
  "no_faults = \<lparr>read_fails = (\<lambda>_. False), copy_fault = (\<lambda>_. CopyDone), write_fault = (\<lambda>_. None),
     remove_fails = (\<lambda>_. False), move_fails = (\<lambda>_. False)\<rparr>"


section \<open>migrate\_bootstrap\_simple.py\<close>

text \<open>\<open>NEW_BOOTSTRAP_PATTERN\<close>; it holds no backslash, so \<open>sub\<close> inserts it as it is.\<close>

definition NEW_BOOTSTRAP_PATTERN :: pystr where
  \<open>NEW_BOOTSTRAP_PATTERN = py ''# Load ServerSentry environment\<newline>if [[ -z "${SERVERSENTRY_ENV_LOADED:-}" ]]; then\<newline>  # Set bootstrap control variables\<newline>  export SERVERSENTRY_QUIET=true\<newline>  export SERVERSENTRY_AUTO_INIT=false\<newline>  export SERVERSENTRY_INIT_LEVEL=minimal\<newline>  \<newline>  # Find and source the main bootstrap file\<newline>  current_dir="$(cd "$(dirname "${BASH_SOURCE[0]}")" && pwd)"\<newline>  while [[ "$current_dir" != "/" ]]; do\<newline>    if [[ -f "$current_dir/serversentry-env.sh" ]]; then\<newline>      source "$current_dir/serversentry-env.sh"\<newline>      break\<newline>    fi\<newline>    current_dir="$(dirname "$current_dir")"\<newline>  done\<newline>  \<newline>  # Verify bootstrap succeeded\<newline>  if [[ -z "${SERVERSENTRY_ENV_LOADED:-}" ]]; then\<newline>    echo "'' @ [10060] @ py '' ERROR: Failed to load ServerSentry environment" >&2\<newline>    exit 1\<newline>  fi\<newline>fi''\<close>

text \<open>
  \<open>old_pattern\<close>, compiled with \<open>MULTILINE | DOTALL\<close>, is the sequence
  \<^verbatim>\<open># Load ServerSentry environment\<close>, \<^verbatim>\<open>.*?\n\<close>,
  \<^verbatim>\<open>if [[ -z "${SERVERSENTRY_ENV_LOADED:-}" ]]; then\<close>, \<^verbatim>\<open>\s*\n\<close>, \<^verbatim>\<open>.*?\<close>,
  \<^verbatim>\<open>lib/serversentry-bootstrap.sh\<close>, \<^verbatim>\<open>.*?.*?\<close>, \<^verbatim>\<open>^fi\s*$\<close>.
  Each matcher below takes the text at its position and gives the text left after the
  whole match, trying the alternatives in the order the backtracking engine does: a lazy
  \<^verbatim>\<open>.*?\<close> (which also passes newlines) tries the nearest position first, a greedy
  \<^verbatim>\<open>\s*\<close> the farthest.
\<close>

definition load_comment :: pystr where
  "load_comment = py ''# Load ServerSentry environment''"

definition if_env_not_loaded :: pystr where
  \<open>if_env_not_loaded = py ''if [[ -z "${SERVERSENTRY_ENV_LOADED:-}" ]]; then''\<close>

definition legacy_path :: pystr where
  "legacy_path = py ''lib/serversentry-bootstrap.sh''"

text \<open>
  \<^verbatim>\<open>\s*$\<close> after \<open>fi\<close>: all the whitespace that can be taken so that the end of the text or
  a newline follows.
\<close>

fun fi_tail :: "pystr \<Rightarrow> pystr option" where
  "fi_tail [] = Some []"
| "fi_tail (c # cs) =
     (if is_space c then
        (case fi_tail cs of
           Some r \<Rightarrow> Some r
         | None \<Rightarrow> if c = NL then Some (c # cs) else None)
      else None)"

text \<open>\<^verbatim>\<open>^fi\s*$\<close>: \<open>at_line_start\<close> says that the position starts the text or follows a newline.\<close>

definition match_fi :: "bool \<Rightarrow> pystr \<Rightarrow> pystr option" where
  "match_fi at_line_start t =
     (if at_line_start \<and> prefix (py ''fi'') t then fi_tail (drop 2 t) else None)"

text \<open>\<^verbatim>\<open>.*?.*?\<close> and then \<^verbatim>\<open>^fi\s*$\<close>: the nearest position where the latter matches.\<close>

fun match_to_fi :: "bool \<Rightarrow> pystr \<Rightarrow> pystr option" where
  "match_to_fi at_line_start [] = None"
| "match_to_fi at_line_start (c # cs) =
     (case match_fi at_line_start (c # cs) of
        Some r \<Rightarrow> Some r
      | None \<Rightarrow> match_to_fi (c = NL) cs)"

text \<open>\<^verbatim>\<open>.*?\<close>, the legacy path, and the rest.\<close>

fun match_to_path :: "pystr \<Rightarrow> pystr option" where
  "match_to_path [] = None"
| "match_to_path (c # cs) =
     (case (if prefix legacy_path (c # cs)
            then match_to_fi False (drop (length legacy_path) (c # cs)) else None) of
        Some r \<Rightarrow> Some r
      | None \<Rightarrow> match_to_path cs)"

text \<open>\<^verbatim>\<open>\s*\n\<close> and the rest: the last newline of the whitespace run from which the rest matches.\<close>

fun match_space_newline :: "pystr \<Rightarrow> pystr option" where
  "match_space_newline [] = None"
| "match_space_newline (c # cs) =
     (if is_space c then
        (case match_space_newline cs of
           Some r \<Rightarrow> Some r
         | None \<Rightarrow> if c = NL then match_to_path cs else None)
      else None)"

text \<open>The \<open>if\<close> line and the rest.\<close>

definition match_if :: "pystr \<Rightarrow> pystr option" where
  "match_if t =
     (if prefix if_env_not_loaded t
      then match_space_newline (drop (length if_env_not_loaded) t) else None)"

text \<open>\<^verbatim>\<open>.*?\n\<close> and the rest.\<close>

fun match_line_end :: "pystr \<Rightarrow> pystr option" where
  "match_line_end [] = None"
| "match_line_end (c # cs) =
     (case (if c = NL then match_if cs else None) of
        Some r \<Rightarrow> Some r
      | None \<Rightarrow> match_line_end cs)"

text \<open>The whole pattern at the start of \<open>t\<close>.\<close>

definition old_pattern_match :: "pystr \<Rightarrow> pystr option" where
  "old_pattern_match t =
     (if prefix load_comment t then match_line_end (drop (length load_comment) t) else None)"

text \<open>A match leaves a text shorter than the one it started on.\<close>

lemma fi_tail_suffix: "fi_tail t = Some r \<Longrightarrow> suffix r t"
proof (induction t arbitrary: r)
  case Nil
  then show ?case by simp
next
  case (Cons c cs)
  then show ?case
    by (auto split: if_splits option.splits intro: suffix_ConsI)
qed

lemma match_fi_suffix: "match_fi b t = Some r \<Longrightarrow> suffix r t"
  by (auto simp: match_fi_def split: if_splits
      dest!: fi_tail_suffix intro: suffix_order.order_trans [OF _ suffix_drop])

lemma match_to_fi_suffix: "match_to_fi b t = Some r \<Longrightarrow> suffix r t"
proof (induction t arbitrary: b r)
  case Nil
  then show ?case by simp
next
  case (Cons c cs)
  then show ?case
    by (auto split: option.splits dest: match_fi_suffix intro: suffix_ConsI)
qed

lemma match_to_path_suffix: "match_to_path t = Some r \<Longrightarrow> suffix r t"
proof (induction t arbitrary: r)
  case Nil
  then show ?case by simp
next
  case (Cons c cs)
  show ?case
  proof (cases "prefix legacy_path (c # cs)
      \<and> match_to_fi False (drop (length legacy_path) (c # cs)) \<noteq> None")
    case True
    with Cons.prems have "match_to_fi False (drop (length legacy_path) (c # cs)) = Some r"
      by (auto split: option.splits)
    then have "suffix r (drop (length legacy_path) (c # cs))"
      by (rule match_to_fi_suffix)
    then show ?thesis
      using suffix_drop suffix_order.order_trans by blast
  next
    case False
    with Cons.prems have "match_to_path cs = Some r"
      by (auto split: option.splits if_splits)
    then show ?thesis
      using Cons.IH by (auto intro: suffix_ConsI)
  qed
qed

lemma match_space_newline_suffix: "match_space_newline t = Some r \<Longrightarrow> suffix r t"
proof (induction t arbitrary: r)
  case Nil
  then show ?case by simp
next
  case (Cons c cs)
  then show ?case
    by (auto split: if_splits option.splits dest: match_to_path_suffix intro: suffix_ConsI)
qed

lemma match_if_suffix: "match_if t = Some r \<Longrightarrow> suffix r t"
  unfolding match_if_def
  by (auto split: if_splits dest!: match_space_newline_suffix
      intro: suffix_order.order_trans [OF _ suffix_drop])

lemma match_line_end_suffix: "match_line_end t = Some r \<Longrightarrow> suffix r t"
proof (induction t arbitrary: r)
  case Nil
  then show ?case by simp
next
  case (Cons c cs)
  then show ?case
    by (auto split: if_splits option.splits dest: match_if_suffix intro: suffix_ConsI)
qed

lemma old_pattern_match_shorter:
  assumes "old_pattern_match t = Some r"
  shows "length r < length t"
proof -
  from assms have p: "prefix load_comment t"
    and m: "match_line_end (drop (length load_comment) t) = Some r"
    by (auto simp: old_pattern_match_def split: if_splits)
  from m have "length r \<le> length t - length load_comment"
    using match_line_end_suffix suffix_length_le by fastforce
  moreover from p have "length load_comment \<le> length t"
    by (rule prefix_length_le)
  moreover have "0 < length load_comment"
    by (simp add: load_comment_def py_def)
  ultimately show ?thesis by linarith
qed

text \<open>
  \<open>old_pattern.sub(NEW_BOOTSTRAP_PATTERN, content)\<close>: every match, from left to right, none
  overlapping another, replaced.
\<close>

function old_pattern_sub :: "pystr \<Rightarrow> pystr" where
  "old_pattern_sub [] = []"
| "old_pattern_sub (c # cs) =
     (case old_pattern_match (c # cs) of
        Some r \<Rightarrow> NEW_BOOTSTRAP_PATTERN @ old_pattern_sub r
      | None \<Rightarrow> c # old_pattern_sub cs)"
  by pat_completeness auto
termination old_pattern_sub
  by (relation "measure length") (auto dest: old_pattern_match_shorter)

text \<open>\<open>f"{file_path}.backup"\<close>.\<close>

definition backup_of :: "path \<Rightarrow> path" where
  "backup_of file_path = file_path @ py ''.backup''"

text \<open>
  The \<open>except\<close> block of \<open>migrate_file\<close>. The result of \<open>migrate_file\<close> is \<open>Inr\<close> of the state
  and the value returned, or \<open>Inl\<close> of the state when an exception leaves the function: a
  move that raises inside the \<open>except\<close> block is not caught.
\<close>

definition restore_on_error :: "faults \<Rightarrow> world \<Rightarrow> path \<Rightarrow> world + world \<times> bool" where
  "restore_on_error env w file_path =
     (let w = w\<lparr>out := out w @ [ErrorMigrating file_path]\<rparr>;
          backup_path = backup_of file_path
      in if files w backup_path \<noteq> None then
           (case move env (files w) backup_path file_path of
              None \<Rightarrow> Inl w
            | Some fs \<Rightarrow> Inr (w\<lparr>files := fs\<rparr>, False))
         else Inr (w, False))"

text \<open>\<open>migrate_file\<close>: every step of the \<open>try\<close> block that raises leads to the \<open>except\<close> block.\<close>

definition migrate_file :: "faults \<Rightarrow> world \<Rightarrow> path \<Rightarrow> world + world \<times> bool" where
  "migrate_file env w file_path =
     (let w = w\<lparr>out := out w @ [Migrating file_path]\<rparr> in
      case read_text env (files w) file_path of
        None \<Rightarrow> restore_on_error env w file_path
      | Some content \<Rightarrow>
          (let backup_path = backup_of file_path in
           case copy2 env (files w) file_path backup_path of
             Inl fs \<Rightarrow> restore_on_error env (w\<lparr>files := fs\<rparr>) file_path
           | Inr fs \<Rightarrow>
               (let w = w\<lparr>files := fs\<rparr>;
                    new_content = old_pattern_sub content
                in if new_content = content then
                     (let w = w\<lparr>out := out w @ [NoChangesMade file_path]\<rparr> in
                      case remove_file env (files w) backup_path of
                        None \<Rightarrow> restore_on_error env w file_path
                      | Some fs \<Rightarrow> Inr (w\<lparr>files := fs\<rparr>, False))
                   else
                     (case write_text env (files w) file_path new_content of
                        Inl fs \<Rightarrow> restore_on_error env (w\<lparr>files := fs\<rparr>) file_path
                      | Inr fs \<Rightarrow>
                          (let w = w\<lparr>files := fs,
                                     out := out w @ [SuccessfullyMigrated file_path]\<rparr>
                           in case remove_file env (files w) backup_path of
                                None \<Rightarrow> restore_on_error env w file_path
                              | Some fs \<Rightarrow> Inr (w\<lparr>files := fs\<rparr>, True))))))"

text \<open>
  \<open>find_shell_files\<close>: \<open>globbed\<close> is what the calls of \<open>glob.glob\<close> give, one pattern after
  the other (a file that two patterns match comes twice); the regular files among them
  that end in \<open>.sh\<close> are kept.
\<close>

definition find_shell_files :: "files \<Rightarrow> path list \<Rightarrow> path list" where
  "find_shell_files fs globbed = filter (\<lambda>f. fs f \<noteq> None \<and> suffix (py ''.sh'') f) globbed"

definition needs_migration :: "faults \<Rightarrow> files \<Rightarrow> path \<Rightarrow> bool" where
  "needs_migration env fs file_path =
     (case read_text env fs file_path of
        None \<Rightarrow> False
      | Some content \<Rightarrow> sublist legacy_path content)"

text \<open>The loop of \<open>main\<close> over \<open>files_to_migrate\<close>.\<close>

fun migrate_loop ::
  "faults \<Rightarrow> world \<Rightarrow> path list \<Rightarrow> nat \<Rightarrow> nat \<Rightarrow> world + world \<times> nat \<times> nat" where
  "migrate_loop env w [] migrated_count error_count = Inr (w, migrated_count, error_count)"
| "migrate_loop env w (file_path # rest) migrated_count error_count =
     (case migrate_file env w file_path of
        Inl w \<Rightarrow> Inl w
      | Inr (w, migrated) \<Rightarrow>
          if migrated then migrate_loop env w rest (migrated_count + 1) error_count
          else migrate_loop env w rest migrated_count (error_count + 1))"

definition main :: "faults \<Rightarrow> world \<Rightarrow> path list \<Rightarrow> world + world \<times> bool" where
  "main env w globbed =
     (let w = w\<lparr>out := out w @ [StartingMigration]\<rparr>;
          shell_files = find_shell_files (files w) globbed;
          w = w\<lparr>out := out w @ [FoundShellFiles (length shell_files)]\<rparr>;
          files_to_migrate = filter (needs_migration env (files w)) shell_files;
          w = w\<lparr>out := out w @ [FoundToMigrate (length files_to_migrate)]\<rparr>
      in if files_to_migrate = [] then
           Inr (w\<lparr>out := out w @ [NoFilesNeedMigration]\<rparr>, True)
         else
           (case migrate_loop env w files_to_migrate 0 0 of
              Inl w \<Rightarrow> Inl w
            | Inr (w, migrated_count, error_count) \<Rightarrow>
                (let w = w\<lparr>out := out w @
                           [MigrationSummary migrated_count error_count (length shell_files)]\<rparr>
                 in if error_count = 0 then
                      Inr (w\<lparr>out := out w @ [MigrationCompleted]\<rparr>, True)
                    else Inr (w\<lparr>out := out w @ [MigrationCompletedWithErrors]\<rparr>, False))))"

text \<open>
  \<open>exit(0 if success else 1)\<close>; the interpreter ends with status 1 on an exception nobody
  caught.
\<close>

definition exit_code :: "world + world \<times> bool \<Rightarrow> nat" where
  "exit_code r = (case r of Inl _ \<Rightarrow> 1 | Inr (_, success) \<Rightarrow> if success then 0 else 1)"

text \<open>The state a call ends in, whichever way it ends.\<close>

definition world_of :: "world + world \<times> 'a \<Rightarrow> world" where
  "world_of r = (case r of Inl w \<Rightarrow> w | Inr (w, _) \<Rightarrow> w)"

text \<open>Some file was reported as left unchanged.\<close>

definition no_change_printed :: "world \<Rightarrow> bool" where
  "no_change_printed w \<longleftrightarrow> (\<exists>q. NoChangesMade q \<in> set (out w))"

text \<open>
  A script with the legacy block, a script that only sources the legacy file, a project
  with one script, and a write that raises after truncating the file.
\<close>

definition legacy_script :: pystr where
  \<open>legacy_script = py ''#!/bin/bash\<newline># Load ServerSentry environment\<newline>if [[ -z "${SERVERSENTRY_ENV_LOADED:-}" ]]; then\<newline>  source "$ROOT/lib/serversentry-bootstrap.sh"\<newline>fi\<newline>echo ok\<newline>''\<close>

definition sourcing_script :: pystr where
  \<open>sourcing_script = py ''#!/bin/bash\<newline>source "$ROOT/lib/serversentry-bootstrap.sh"\<newline>''\<close>

definition tools_run :: path where
  "tools_run = py ''tools/run.sh''"

definition one_sourcing_script :: world where
  "one_sourcing_script = \<lparr>files = [tools_run \<mapsto> sourcing_script], out = []\<rparr>"

definition one_legacy_script :: world where
  "one_legacy_script = \<lparr>files = [tools_run \<mapsto> legacy_script], out = []\<rparr>"

definition write_fails_truncated :: faults where
  "write_fails_truncated =
     no_faults\<lparr>write_fault := (\<lambda>p. if p = tools_run then Some [] else None)\<rparr>"

text \<open>
  Two scripts with the legacy block, the first of them immutable: opening it for writing
  raises and leaves it as it is, and so does moving the backup over it.
\<close>

definition tools_next :: path where
  "tools_next = py ''tools/next.sh''"

definition two_legacy_scripts :: world where
  "two_legacy_scripts =
     \<lparr>files = [tools_run \<mapsto> legacy_script, tools_next \<mapsto> legacy_script], out = []\<rparr>"

definition immutable_file :: faults where
  "immutable_file =
     no_faults\<lparr>write_fault := (\<lambda>p. if p = tools_run then Some legacy_script else None),
               move_fails := (\<lambda>p. p = backup_of tools_run)\<rparr>"


section \<open>project\_cleanup\_audit.py\<close>

text \<open>
  An issue as \<open>log_issue\<close> records it. The description is kept in parts, not as the text the
  script formats (the text of a caught exception is left out).
\<close>

datatype severity = LOW | MEDIUM | HIGH

datatype category =
    FILE_ACCESS | DUPLICATE_FILES | EMPTY_DIR | LARGE_FILE | DUPLICATE_FUNCTION
  | MISPLACED_FILE | NAMING_INCONSISTENCY | UNUSED_FILE | COMPLEX_FILE | LOW_DOCUMENTATION

datatype description =
    CannotReadFile | DuplicateFilesFound "path list"
  | CannotAnalyzeFunctions | FunctionDefinedInMultipleFiles pystr "path list"
  | FileAppearsUnused
  | HighComplexity nat | MediumComplexity nat | LowCommentRatio nat nat
  | CannotAnalyzeComplexity

record issue =
  severity :: severity
  category :: category
  issue_file :: path
  description :: description

text \<open>The lists of a \<open>ProjectAuditor\<close>; \<open>duplicate_functions\<close> is a dict in insertion order.\<close>

record auditor =
  issues :: "issue list"
  redundant_files :: "path list"
  empty_dirs :: "path list"
  large_files :: "(path \<times> nat) list"
  duplicate_functions :: "(pystr \<times> path list) list"
  unused_files :: "path list"

definition log_issue :: "auditor \<Rightarrow> severity \<Rightarrow> category \<Rightarrow> path \<Rightarrow> description \<Rightarrow> auditor" where
  "log_issue self sev cat file_path descr =
     self\<lparr>issues := issues self @
       [\<lparr>severity = sev, category = cat, issue_file = file_path, description = descr\<rparr>]\<rparr>"

text \<open>\<open>f.readlines()\<close>: every line but perhaps the last ends with its newline.\<close>

fun readlines :: "pystr \<Rightarrow> pystr list" where
  "readlines [] = []"
| "readlines (c # cs) =
     (if c = NL then [NL] # readlines cs
      else (case readlines cs of [] \<Rightarrow> [[c]] | l # ls \<Rightarrow> (c # l) # ls))"

text \<open>\<open>s.startswith(p)\<close>.\<close>

definition startswith :: "pystr \<Rightarrow> pystr \<Rightarrow> bool" where
  "startswith s p = prefix p s"

text \<open>The counts \<open>code_lines\<close> and \<open>comment_lines\<close> of \<open>analyze_complexity\<close>.\<close>

definition count_code_lines :: "pystr list \<Rightarrow> nat" where
  "count_code_lines lines =
     length (filter (\<lambda>line. strip line \<noteq> [] \<and> \<not> startswith (strip line) (py ''#'')) lines)"

definition count_comment_lines :: "pystr list \<Rightarrow> nat" where
  "count_comment_lines lines =
     length (filter (\<lambda>line. startswith (strip line) (py ''#'')) lines)"

text \<open>
  The body of the loop of \<open>analyze_complexity\<close> on a file that was read. The quotient
  \<open>comment_lines / total_lines\<close> is a float in the script and exact here: the float
  quotient is the nearest double, and the nearest double of a quotient below one tenth is
  below the double \<open>0.1\<close> unless the file has more than \<open>10^16\<close> lines.
\<close>

definition analyze_file :: "auditor \<Rightarrow> path \<Rightarrow> pystr \<Rightarrow> auditor" where
  "analyze_file self file_path content =
     (let lines = readlines content;
          total_lines = length lines;
          code_lines = count_code_lines lines;
          comment_lines = count_comment_lines lines;
          self = (if code_lines > 300 then
                    log_issue self HIGH COMPLEX_FILE file_path (HighComplexity code_lines)
                  else if code_lines > 200 then
                    log_issue self MEDIUM COMPLEX_FILE file_path (MediumComplexity code_lines)
                  else self)
      in if total_lines > 50 \<and> real comment_lines / real total_lines < 1 / 10 then
           log_issue self LOW LOW_DOCUMENTATION file_path
             (LowCommentRatio comment_lines total_lines)
         else self)"

text \<open>\<open>analyze_complexity\<close>, over the files \<open>find_shell_files\<close> gives.\<close>

fun analyze_complexity :: "faults \<Rightarrow> files \<Rightarrow> path list \<Rightarrow> auditor \<Rightarrow> auditor" where
  "analyze_complexity env fs [] self = self"
| "analyze_complexity env fs (file_path # rest) self =
     analyze_complexity env fs rest
       (case read_text env fs file_path of
          None \<Rightarrow> log_issue self LOW FILE_ACCESS file_path CannotAnalyzeComplexity
        | Some content \<Rightarrow> analyze_file self file_path content)"

text \<open>A new auditor, and the issues a call added.\<close>

definition fresh :: auditor where
  "fresh = \<lparr>issues = [], redundant_files = [], empty_dirs = [], large_files = [],
     duplicate_functions = [], unused_files = []\<rparr>"

definition new_issues :: "auditor \<Rightarrow> auditor \<Rightarrow> issue list" where
  "new_issues before after = drop (length (issues before)) (issues after)"

text \<open>
  The lines of a script by what is written on them: a blank line holds whitespace only, a
  comment line holds \<open>#\<close> after whitespace only, and a line of code is neither.
\<close>

definition blank_line :: "pystr \<Rightarrow> bool" where
  "blank_line l \<longleftrightarrow> (\<forall>c \<in> set l. is_space c)"

definition comment_line :: "pystr \<Rightarrow> bool" where
  "comment_line l \<longleftrightarrow> (\<exists>ws rest. l = ws @ 35 # rest \<and> (\<forall>c \<in> set ws. is_space c))"

definition code_line :: "pystr \<Rightarrow> bool" where
  "code_line l \<longleftrightarrow> \<not> blank_line l \<and> \<not> comment_line l"

text \<open>
  A script of so many lines of code, indented comment lines and blank lines, and a project
  of six such scripts.
\<close>

definition mixed_file :: "nat \<Rightarrow> nat \<Rightarrow> nat \<Rightarrow> pystr" where
  "mixed_file code comments blanks =
     concat (replicate code (py ''echo ok\<newline>''))
     @ concat (replicate comments (py ''  # note\<newline>''))
     @ concat (replicate blanks (py '' \<newline>''))"

definition audit_project :: files where
  "audit_project =
     [py ''big.sh'' \<mapsto> mixed_file 301 40 10,
      py ''notes.sh'' \<mapsto> mixed_file 0 301 0,
      py ''mid.sh'' \<mapsto> mixed_file 250 0 0,
      py ''small.sh'' \<mapsto> mixed_file 150 0 60,
      py ''even.sh'' \<mapsto> mixed_file 54 6 0,
      py ''sparse.sh'' \<mapsto> mixed_file 55 5 0]"

definition audit_files :: "path list" where
  "audit_files = [py ''big.sh'', py ''notes.sh'', py ''mid.sh'', py ''small.sh'', py ''even.sh'',
     py ''sparse.sh'']"

text \<open>The issues \<open>analyze_complexity\<close> logs for one file.\<close>

definition file_complexity_issues :: "path \<Rightarrow> pystr \<Rightarrow> issue list" where
  "file_complexity_issues p content =
     (if 300 < count_code_lines (readlines content) then
        [\<lparr>severity = HIGH, category = COMPLEX_FILE, issue_file = p,
          description = HighComplexity (count_code_lines (readlines content))\<rparr>]
      else if 200 < count_code_lines (readlines content) then
        [\<lparr>severity = MEDIUM, category = COMPLEX_FILE, issue_file = p,
          description = MediumComplexity (count_code_lines (readlines content))\<rparr>]
      else [])
     @ (if 50 < length (readlines content)
           \<and> 10 * count_comment_lines (readlines content) < length (readlines content) then
          [\<lparr>severity = LOW, category = LOW_DOCUMENTATION, issue_file = p,
            description = LowCommentRatio (count_comment_lines (readlines content))
              (length (readlines content))\<rparr>]
        else [])"

definition complexity_issues_of :: "faults \<Rightarrow> files \<Rightarrow> path \<Rightarrow> issue list" where
  "complexity_issues_of env fs p =
     (case read_text env fs p of
        None \<Rightarrow> [\<lparr>severity = LOW, category = FILE_ACCESS, issue_file = p,
                   description = CannotAnalyzeComplexity\<rparr>]
      | Some content \<Rightarrow> file_complexity_issues p content)"


text \<open>
  \<open>function_pattern\<close>, the pattern of the function remover compiled with \<open>MULTILINE\<close>, at a
  position where a line starts: the name and the text after the opening brace. (Here
  \<^verbatim>\<open>\s*\<close> reads the whole text, so a header may run over several lines.)
\<close>

definition function_pattern_match :: "pystr \<Rightarrow> (pystr \<times> pystr) option" where
  "function_pattern_match t =
     (case t of
        [] \<Rightarrow> None
      | c # cs \<Rightarrow>
          if is_ident_start c then
            (case dropWhile is_space (dropWhile is_ident_char cs) of
               p # q # r \<Rightarrow>
                 if p = LPAREN \<and> q = RPAREN then
                   (case dropWhile is_space r of
                      b # rest \<Rightarrow>
                        if b = LBRACE then Some (c # takeWhile is_ident_char cs, rest) else None
                    | [] \<Rightarrow> None)
                 else None
             | _ \<Rightarrow> None)
          else None)"

lemma function_pattern_match_shorter:
  assumes "function_pattern_match t = Some (name, rest)"
  shows "length rest < length t"
proof -
  from assms obtain c cs p q r b where t: "t = c # cs"
    and d1: "dropWhile is_space (dropWhile is_ident_char cs) = p # q # r"
    and d2: "dropWhile is_space r = b # rest"
    by (auto simp: function_pattern_match_def split: list.splits if_splits)
  have "length (b # rest) \<le> length r"
    using length_dropWhile_le [of is_space r] d2 by simp
  moreover have "length (p # q # r) \<le> length cs"
    using length_dropWhile_le [of is_space "dropWhile is_ident_char cs"]
      length_dropWhile_le [of is_ident_char cs] d1 by simp
  ultimately show ?thesis using t by simp
qed

text \<open>
  \<open>function_pattern.findall(content)\<close>: the names of the matches from left to right, the
  search going on after each match; \<open>at_line_start\<close> says that the position starts the text
  or follows a newline.
\<close>

function findall :: "bool \<Rightarrow> pystr \<Rightarrow> pystr list" where
  "findall at_line_start [] = []"
| "findall at_line_start (c # cs) =
     (case (if at_line_start then function_pattern_match (c # cs) else None) of
        Some (func_name, rest) \<Rightarrow> func_name # findall False rest
      | None \<Rightarrow> findall (c = NL) cs)"
  by pat_completeness auto
termination findall
  by (relation "measure (\<lambda>(b, t). length t)")
    (auto split: if_splits dest: function_pattern_match_shorter)

text \<open>\<open>d[k].append(v)\<close> on a \<open>defaultdict(list)\<close>.\<close>

fun dict_append :: "('k \<times> 'v list) list \<Rightarrow> 'k \<Rightarrow> 'v \<Rightarrow> ('k \<times> 'v list) list" where
  "dict_append [] k v = [(k, [v])]"
| "dict_append ((k', vs) # d) k v =
     (if k' = k then (k', vs @ [v]) # d else (k', vs) # dict_append d k v)"

text \<open>The inner loop, the first loop and the reporting loop of \<open>find_duplicate_functions\<close>.\<close>

fun register_functions :: "auditor \<Rightarrow> pystr list \<Rightarrow> path \<Rightarrow> auditor" where
  "register_functions self [] file_path = self"
| "register_functions self (func_name # functions) file_path =
     register_functions
       (self\<lparr>duplicate_functions := dict_append (duplicate_functions self) func_name file_path\<rparr>)
       functions file_path"

fun scan_functions :: "faults \<Rightarrow> files \<Rightarrow> path list \<Rightarrow> auditor \<Rightarrow> auditor" where
  "scan_functions env fs [] self = self"
| "scan_functions env fs (file_path # rest) self =
     scan_functions env fs rest
       (case read_text env fs file_path of
          None \<Rightarrow> log_issue self LOW FILE_ACCESS file_path CannotAnalyzeFunctions
        | Some content \<Rightarrow> register_functions self (findall True content) file_path)"

fun report_duplicate_functions :: "(pystr \<times> path list) list \<Rightarrow> auditor \<Rightarrow> auditor" where
  "report_duplicate_functions [] self = self"
| "report_duplicate_functions ((func_name, file_list) # items) self =
     report_duplicate_functions items
       (if length file_list > 1 then
          log_issue self MEDIUM DUPLICATE_FUNCTION (hd file_list)
            (FunctionDefinedInMultipleFiles func_name file_list)
        else self)"

definition find_duplicate_functions :: "faults \<Rightarrow> files \<Rightarrow> path list \<Rightarrow> auditor \<Rightarrow> auditor" where
  "find_duplicate_functions env fs shell_files self =
     (let self = scan_functions env fs shell_files self
      in report_duplicate_functions (duplicate_functions self) self)"

text \<open>A script that defines \<open>log\<close> twice.\<close>

definition twice_defined :: pystr where
  "twice_defined = py ''log() {\<newline>  echo one\<newline>}\<newline>log() {\<newline>  echo two\<newline>}\<newline>''"

text \<open>A project of that script and a script that defines \<open>main\<close> alone.\<close>

definition two_scripts :: files where
  "two_scripts = [py ''a.sh'' \<mapsto> twice_defined, py ''b.sh'' \<mapsto> py ''main() {\<newline>}\<newline>'']"

text \<open>The files recorded for a name, and what one file adds to them.\<close>

definition entries :: "('k \<times> 'v list) list \<Rightarrow> 'k \<Rightarrow> 'v list" where
  "entries d k = (case map_of d k of None \<Rightarrow> [] | Some vs \<Rightarrow> vs)"

definition occurrences :: "faults \<Rightarrow> files \<Rightarrow> pystr \<Rightarrow> path \<Rightarrow> path list" where
  "occurrences env fs n p =
     (case read_text env fs p of
        None \<Rightarrow> []
      | Some content \<Rightarrow> replicate (count_list (findall True content) n) p)"


text \<open>
  \<open>find_duplicate_files\<close>: the first loop fills the dict \<open>file_hashes\<close> (\<open>md5\<close> is
  \<open>hashlib.md5(...).hexdigest()\<close>, a parameter), the second reports the entries with more
  than one file. The content is read as bytes; it is given here as the text of the
  project's files.
\<close>

fun hash_files ::
  "faults \<Rightarrow> files \<Rightarrow> (pystr \<Rightarrow> 'h) \<Rightarrow> path list \<Rightarrow> ('h \<times> path list) list \<Rightarrow> auditor
   \<Rightarrow> ('h \<times> path list) list \<times> auditor" where
  "hash_files env fs md5 [] file_hashes self = (file_hashes, self)"
| "hash_files env fs md5 (file_path # rest) file_hashes self =
     (case read_text env fs file_path of
        None \<Rightarrow>
          hash_files env fs md5 rest file_hashes
            (log_issue self LOW FILE_ACCESS file_path CannotReadFile)
      | Some content \<Rightarrow>
          hash_files env fs md5 rest (dict_append file_hashes (md5 content) file_path) self)"

fun report_duplicate_files :: "('h \<times> path list) list \<Rightarrow> auditor \<Rightarrow> auditor" where
  "report_duplicate_files [] self = self"
| "report_duplicate_files ((content_hash, file_list) # items) self =
     report_duplicate_files items
       (if length file_list > 1 then
          log_issue (self\<lparr>redundant_files := redundant_files self @ tl file_list\<rparr>)
            MEDIUM DUPLICATE_FILES (hd file_list) (DuplicateFilesFound file_list)
        else self)"

definition find_duplicate_files ::
  "faults \<Rightarrow> files \<Rightarrow> (pystr \<Rightarrow> 'h) \<Rightarrow> path list \<Rightarrow> auditor \<Rightarrow> auditor" where
  "find_duplicate_files env fs md5 shell_files self =
     (let (file_hashes, self) = hash_files env fs md5 shell_files [] self
      in report_duplicate_files file_hashes self)"

text \<open>
  The hash of a file that can be read, the files of a hash in traversal order, and what
  a call added to \<open>redundant_files\<close>.
\<close>

definition content_hash_of :: "faults \<Rightarrow> files \<Rightarrow> (pystr \<Rightarrow> 'h) \<Rightarrow> path \<Rightarrow> 'h option" where
  "content_hash_of env fs md5 p = map_option md5 (read_text env fs p)"

definition hash_group :: "faults \<Rightarrow> files \<Rightarrow> (pystr \<Rightarrow> 'h) \<Rightarrow> path list \<Rightarrow> 'h \<Rightarrow> path list" where
  "hash_group env fs md5 shell_files h =
     filter (\<lambda>p. content_hash_of env fs md5 p = Some h) shell_files"

definition new_redundant :: "auditor \<Rightarrow> auditor \<Rightarrow> path list" where
  "new_redundant before after = drop (length (redundant_files before)) (redundant_files after)"

text \<open>What the reporting loop adds for a dict, and the issues of the files that cannot be read.\<close>

definition duplicate_issue :: "path list \<Rightarrow> issue" where
  "duplicate_issue file_list =
     \<lparr>severity = MEDIUM, category = DUPLICATE_FILES, issue_file = hd file_list,
      description = DuplicateFilesFound file_list\<rparr>"

definition redundant_of :: "('h \<times> path list) list \<Rightarrow> path list" where
  "redundant_of d = concat (map (\<lambda>(h, g). if 1 < length g then tl g else []) d)"

definition duplicate_issues_of :: "('h \<times> path list) list \<Rightarrow> issue list" where
  "duplicate_issues_of d =
     concat (map (\<lambda>(h, g). if 1 < length g then [duplicate_issue g] else []) d)"

definition access_issues :: "faults \<Rightarrow> files \<Rightarrow> path list \<Rightarrow> issue list" where
  "access_issues env fs ps =
     map (\<lambda>p. \<lparr>severity = LOW, category = FILE_ACCESS, issue_file = p,
                description = CannotReadFile\<rparr>)
       (filter (\<lambda>p. read_text env fs p = None) ps)"


text \<open>
  \<open>file_path.name\<close>, the text after the last \<open>/\<close>, and \<open>file_path.stem\<close>, the name without
  its last suffix (a dot that is first or last in the name starts no suffix).
\<close>

definition path_name :: "path \<Rightarrow> pystr" where
  "path_name p = rev (takeWhile (\<lambda>c. c \<noteq> 47) (rev p))"

definition path_stem :: "path \<Rightarrow> pystr" where
  "path_stem p =
     (let name = path_name p;
          after = takeWhile (\<lambda>c. c \<noteq> 46) (rev name);
          i = length name - length after - 1
      in if 46 \<in> set name \<and> 0 < i \<and> i < length name - 1 then take i name else name)"

text \<open>The entry points \<open>skip_files\<close> and the corpus \<open>all_content\<close>.\<close>

definition skip_files :: "pystr set" where
  "skip_files = {py ''serversentry-env.sh'', py ''serversentry''}"

fun all_content :: "faults \<Rightarrow> files \<Rightarrow> path list \<Rightarrow> pystr" where
  "all_content env fs [] = []"
| "all_content env fs (file_path # rest) =
     (case read_text env fs file_path of
        None \<Rightarrow> all_content env fs rest
      | Some content \<Rightarrow> content @ NL # all_content env fs rest)"

text \<open>
  The four patterns are searched with \<open>re.IGNORECASE\<close>. Which characters that flag
  identifies is a table of the Python runtime; it is the parameter \<open>caseless\<close> (pattern
  character, text character). On ASCII characters it is \<open>ascii_caseless\<close>.
\<close>

definition ascii_caseless :: "nat \<Rightarrow> nat \<Rightarrow> bool" where
  "ascii_caseless a b \<longleftrightarrow>
     (if 65 \<le> a \<and> a \<le> 90 then a + 32 else a) = (if 65 \<le> b \<and> b \<le> 90 then b + 32 else b)"

text \<open>
  \<open>re.escape\<close> makes a name a literal. \<open>match_here\<close>: the literal at the start of \<open>t\<close>;
  \<open>search_literal\<close>: \<open>re.search\<close> of a literal; \<open>rest_of_line\<close>: \<^verbatim>\<open>.*\<close> (which stops at a
  newline) and a literal; \<open>search_then\<close>: \<open>re.search\<close> of a literal, \<^verbatim>\<open>.*\<close> and a literal.
\<close>

definition match_here :: "(nat \<Rightarrow> nat \<Rightarrow> bool) \<Rightarrow> pystr \<Rightarrow> pystr \<Rightarrow> bool" where
  "match_here caseless literal t \<longleftrightarrow>
     length literal \<le> length t \<and> list_all2 caseless literal (take (length literal) t)"

fun search_literal :: "(nat \<Rightarrow> nat \<Rightarrow> bool) \<Rightarrow> pystr \<Rightarrow> pystr \<Rightarrow> bool" where
  "search_literal caseless literal [] = match_here caseless literal []"
| "search_literal caseless literal (c # cs) =
     (match_here caseless literal (c # cs) \<or> search_literal caseless literal cs)"

fun rest_of_line :: "(nat \<Rightarrow> nat \<Rightarrow> bool) \<Rightarrow> pystr \<Rightarrow> pystr \<Rightarrow> bool" where
  "rest_of_line caseless literal [] = match_here caseless literal []"
| "rest_of_line caseless literal (c # cs) =
     (match_here caseless literal (c # cs) \<or> (c \<noteq> NL \<and> rest_of_line caseless literal cs))"

fun search_then :: "(nat \<Rightarrow> nat \<Rightarrow> bool) \<Rightarrow> pystr \<Rightarrow> pystr \<Rightarrow> pystr \<Rightarrow> bool" where
  "search_then caseless first second [] =
     (match_here caseless first [] \<and> rest_of_line caseless second [])"
| "search_then caseless first second (c # cs) =
     ((match_here caseless first (c # cs)
        \<and> rest_of_line caseless second (drop (length first) (c # cs)))
      \<or> search_then caseless first second cs)"

text \<open>\<open>referenced\<close>: one of the four patterns is found in the corpus.\<close>

definition referenced :: "(nat \<Rightarrow> nat \<Rightarrow> bool) \<Rightarrow> pystr \<Rightarrow> pystr \<Rightarrow> pystr \<Rightarrow> bool" where
  "referenced caseless file_name base_name content \<longleftrightarrow>
     search_then caseless (py ''source'') file_name content
     \<or> search_then caseless (py ''source'') base_name content
     \<or> search_then caseless (py ''.'') file_name content
     \<or> search_literal caseless (base_name @ py ''.sh'') content"

text \<open>
  The second loop of \<open>check_unused_files\<close>; \<open>executable\<close> is \<open>os.access(file_path, os.X_OK)\<close>.
\<close>

fun check_references ::
  "(nat \<Rightarrow> nat \<Rightarrow> bool) \<Rightarrow> (path \<Rightarrow> bool) \<Rightarrow> pystr \<Rightarrow> path list \<Rightarrow> auditor \<Rightarrow> auditor" where
  "check_references caseless executable content [] self = self"
| "check_references caseless executable content (file_path # rest) self =
     check_references caseless executable content rest
       (let file_name = path_name file_path; base_name = path_stem file_path
        in if file_name \<in> skip_files then self
           else if \<not> referenced caseless file_name base_name content then
             (if \<not> executable file_path then
                log_issue (self\<lparr>unused_files := unused_files self @ [file_path]\<rparr>)
                  MEDIUM UNUSED_FILE file_path FileAppearsUnused
              else self)
           else self)"

definition check_unused_files ::
  "(nat \<Rightarrow> nat \<Rightarrow> bool) \<Rightarrow> (path \<Rightarrow> bool) \<Rightarrow> faults \<Rightarrow> files \<Rightarrow> path list \<Rightarrow> auditor
   \<Rightarrow> auditor" where
  "check_unused_files caseless executable env fs shell_files self =
     check_references caseless executable (all_content env fs shell_files) shell_files self"

text \<open>
  A literal occurs in a text, letter case aside; and a literal is followed, later on the
  same line, by another.
\<close>

definition occurs :: "(nat \<Rightarrow> nat \<Rightarrow> bool) \<Rightarrow> pystr \<Rightarrow> pystr \<Rightarrow> bool" where
  "occurs caseless literal t \<longleftrightarrow> (\<exists>u v w. t = u @ v @ w \<and> list_all2 caseless literal v)"

definition occurs_then :: "(nat \<Rightarrow> nat \<Rightarrow> bool) \<Rightarrow> pystr \<Rightarrow> pystr \<Rightarrow> pystr \<Rightarrow> bool" where
  "occurs_then caseless first second t \<longleftrightarrow>
     (\<exists>u x g y w. t = u @ x @ g @ y @ w \<and> list_all2 caseless first x \<and> NL \<notin> set g
        \<and> list_all2 caseless second y)"

text \<open>What a call added to \<open>unused_files\<close>, and the test the loop makes for a file.\<close>

definition new_unused :: "auditor \<Rightarrow> auditor \<Rightarrow> path list" where
  "new_unused before after = drop (length (unused_files before)) (unused_files after)"

definition flagged_unused ::
  "(nat \<Rightarrow> nat \<Rightarrow> bool) \<Rightarrow> (path \<Rightarrow> bool) \<Rightarrow> pystr \<Rightarrow> path \<Rightarrow> bool" where
  "flagged_unused caseless executable content p \<longleftrightarrow>
     path_name p \<notin> skip_files \<and> \<not> executable p
     \<and> \<not> referenced caseless (path_name p) (path_stem p) content"

text \<open>
  A project of one script that names its own stem, and a project with two files of the
  same content.
\<close>

definition helper_project :: files where
  "helper_project = [py ''lib/helper.sh'' \<mapsto> py ''echo helper\<newline>'']"

definition three_files :: files where
  "three_files = [py ''a.sh'' \<mapsto> py ''x'', py ''b.sh'' \<mapsto> py ''y'', py ''c.sh'' \<mapsto> py ''x'']"


section \<open>Lines and texts\<close>

lemma split_nl_not_Nil: "split_nl s \<noteq> []"
  by (induction s) (auto split: list.splits)

lemma join_split_nl: "join_nl (split_nl s) = s"
proof (induction s)
  case Nil
  show ?case by simp
next
  case (Cons c cs)
  obtain l ls where sp: "split_nl cs = l # ls"
    using split_nl_not_Nil [of cs] by (cases "split_nl cs") auto
  show ?case
  proof (cases "c = NL")
    case True
    with Cons sp show ?thesis by simp
  next
    case False
    with Cons sp show ?thesis by (cases ls) auto
  qed
qed

lemma split_nl_no_newline: "l \<in> set (split_nl s) \<Longrightarrow> NL \<notin> set l"
proof (induction s arbitrary: l)
  case Nil
  then show ?case by simp
next
  case (Cons c cs)
  obtain k ks where sp: "split_nl cs = k # ks"
    using split_nl_not_Nil [of cs] by (cases "split_nl cs") auto
  have k: "NL \<notin> set k" and ks: "\<And>x. x \<in> set ks \<Longrightarrow> NL \<notin> set x"
    using Cons.IH sp by auto
  show ?case
  proof (cases "c = NL")
    case True
    with Cons.prems sp k ks show ?thesis by auto
  next
    case False
    with Cons.prems sp k ks show ?thesis by auto
  qed
qed

lemma split_nl_line: "NL \<notin> set l \<Longrightarrow> split_nl l = [l]"
  by (induction l) auto

lemma split_nl_append_newline:
  "NL \<notin> set l \<Longrightarrow> split_nl (l @ NL # s) = l # split_nl s"
  by (induction l) auto

lemma split_join_nl:
  "ls \<noteq> [] \<Longrightarrow> \<forall>l \<in> set ls. NL \<notin> set l \<Longrightarrow> split_nl (join_nl ls) = ls"
proof (induction ls rule: join_nl.induct)
  case 1
  then show ?case by simp
next
  case (2 l)
  then show ?case by (simp add: split_nl_line)
next
  case (3 l k ks)
  then show ?case by (simp add: split_nl_append_newline)
qed

section \<open>The function remover: what is emitted\<close>

lemma remove_loop_acc:
  "remove_loop F ls skip bc acc = acc @ remove_loop F ls skip bc []"
proof (induction ls arbitrary: skip bc acc)
  case Nil
  show ?case by simp
next
  case (Cons l ls)
  have a: "remove_loop F ls s b (acc @ [l]) = acc @ remove_loop F ls s b [l]" for s b
    using Cons [of s b "acc @ [l]"] Cons [of s b "[l]"] by simp
  have b: "remove_loop F ls s b [] @ [] = remove_loop F ls s b []" for s b
    by simp
  show ?case
    using Cons [of _ _ acc] a
    by (simp add: Let_def split: option.splits)
qed

lemma remove_loop_subseq: "subseq (remove_loop F ls skip bc []) ls"
proof (induction ls arbitrary: skip bc)
  case Nil
  show ?case by simp
next
  case (Cons l ls)
  have keep: "subseq (remove_loop F ls s b [l]) (l # ls)" for s b
    using Cons [of s b] remove_loop_acc [of F ls s b "[l]"] by simp
  have drop: "subseq (remove_loop F ls s b []) (l # ls)" for s b
    using Cons [of s b] by (rule list_emb_Cons)
  show ?case
    using keep drop by (simp add: Let_def split: option.splits)
qed

lemma subseq_member: "subseq xs ys \<Longrightarrow> x \<in> set xs \<Longrightarrow> x \<in> set ys"
  by (auto elim: list_emb_set)

lemma remove_loop_lines: "l \<in> set (remove_loop F ls skip bc []) \<Longrightarrow> l \<in> set ls"
  using remove_loop_subseq by (rule subseq_member)

lemma remove_loop_no_header:
  "l \<in> set (remove_loop F ls skip bc []) \<Longrightarrow> \<not> is_removed_header F l"
proof (induction ls arbitrary: skip bc)
  case Nil
  then show ?case by simp
next
  case (Cons k ks)
  have acc: "remove_loop F ks s b [k] = k # remove_loop F ks s b []" for s b
    using remove_loop_acc [of F ks s b "[k]"] by simp
  show ?case
    using Cons.prems Cons.IH
    by (auto simp: Let_def acc is_removed_header_def split: if_splits option.splits)
qed

lemma remove_loop_id:
  "\<forall>l \<in> set ls. \<not> is_removed_header F l \<Longrightarrow> remove_loop F ls False bc [] = ls"
proof (induction ls arbitrary: bc)
  case Nil
  show ?case by simp
next
  case (Cons k ks)
  have acc: "remove_loop F ks s b [k] = k # remove_loop F ks s b []" for s b
    using remove_loop_acc [of F ks s b "[k]"] by simp
  show ?case
    using Cons.prems Cons.IH
    by (auto simp: acc is_removed_header_def split: option.splits)
qed

lemma remove_duplicate_functions_id:
  "\<forall>l \<in> set (split_nl content). \<not> is_removed_header F l \<Longrightarrow>
   remove_duplicate_functions content F = content"
  by (simp add: remove_duplicate_functions_def remove_loop_id join_split_nl)

lemma empty_line_no_header: "\<not> is_removed_header F []"
  by (simp add: is_removed_header_def strip_def function_match_def)

lemma remove_duplicate_functions_no_header:
  "l \<in> set (split_nl (remove_duplicate_functions content F)) \<Longrightarrow> \<not> is_removed_header F l"
proof -
  assume l: "l \<in> set (split_nl (remove_duplicate_functions content F))"
  define E where "E = remove_loop F (split_nl content) False 0 []"
  show ?thesis
  proof (cases "E = []")
    case True
    with l have "l = []"
      by (simp add: remove_duplicate_functions_def E_def)
    then show ?thesis by (simp add: empty_line_no_header)
  next
    case False
    have "\<forall>x \<in> set E. NL \<notin> set x"
      unfolding E_def by (blast dest: remove_loop_lines split_nl_no_newline)
    with False have "split_nl (join_nl E) = E"
      by (simp add: split_join_nl)
    with l have "l \<in> set E"
      by (simp add: remove_duplicate_functions_def E_def)
    then show ?thesis
      unfolding E_def by (rule remove_loop_no_header)
  qed
qed

lemma rstrip_append_ink: "has_ink ys \<Longrightarrow> rstrip (xs @ ys) = xs @ rstrip ys"
proof -
  assume "has_ink ys"
  then have "dropWhile is_space (rev ys @ rev xs) = dropWhile is_space (rev ys) @ rev xs"
    by (auto simp: has_ink_def dropWhile_append)
  then show ?thesis by (simp add: rstrip_def)
qed

lemma rstrip_Cons_ink: "\<not> is_space x \<Longrightarrow> rstrip (x # xs) = x # rstrip xs"
proof (cases "has_ink xs")
  case True
  then show ?thesis using rstrip_append_ink [of xs "[x]"] by simp
next
  case False
  assume x: "\<not> is_space x"
  from False have "dropWhile is_space (rev xs) = []"
    by (auto simp: has_ink_def)
  with x show ?thesis
    by (simp add: rstrip_def dropWhile_append)
qed

lemma strip_ink_first: "\<not> is_space c \<Longrightarrow> strip (c # cs) = c # rstrip cs"
  using rstrip_Cons_ink [of c cs] by (simp add: strip_def rstrip_def)

lemma dropWhile_rstrip:
  assumes "has_ink (dropWhile Q xs)"
  shows "dropWhile Q (rstrip xs) = rstrip (dropWhile Q xs)"
    and "takeWhile Q (rstrip xs) = takeWhile Q xs"
proof -
  from assms obtain y ys where d: "dropWhile Q xs = y # ys"
    by (cases "dropWhile Q xs") (auto simp: has_ink_def)
  then have ny: "\<not> Q y"
    by (metis hd_dropWhile list.sel(1) list.simps(3))
  have xs: "xs = takeWhile Q xs @ y # ys"
    using d by (metis takeWhile_dropWhile_id)
  have r: "rstrip xs = takeWhile Q xs @ rstrip (y # ys)"
    using rstrip_append_ink [of "y # ys" "takeWhile Q xs"] assms d xs by simp
  obtain z zs where z: "rstrip (y # ys) = z # zs" and zy: "z = y"
  proof (cases "has_ink ys")
    case True
    then have "rstrip ([y] @ ys) = [y] @ rstrip ys" by (rule rstrip_append_ink)
    then show ?thesis using that by simp
  next
    case False
    with assms d have "\<not> is_space y" by (auto simp: has_ink_def)
    then show ?thesis using that rstrip_Cons_ink by blast
  qed
  have tw: "\<forall>x \<in> set (takeWhile Q xs). Q x"
    by (auto dest: set_takeWhileD)
  show "dropWhile Q (rstrip xs) = rstrip (dropWhile Q xs)"
    using r z zy ny tw d by (simp add: dropWhile_append2)
  show "takeWhile Q (rstrip xs) = takeWhile Q xs"
    using r z zy ny tw by (simp add: takeWhile_append2)
qed

lemma has_ink_dropWhile: "has_ink (dropWhile Q xs) \<Longrightarrow> has_ink xs"
  by (auto simp: has_ink_def dest: set_dropWhileD)

lemma ident_not_space: "is_ident_start c \<Longrightarrow> \<not> is_space c"
  by (auto simp: is_ident_start_def is_space_def)

lemma function_match_strip:
  assumes "function_match l = Some n"
  shows "function_match (strip l) = Some n"
proof -
  from assms obtain c cs r rest where l: "l = c # cs" and c: "is_ident_start c"
    and d2: "dropWhile is_space (dropWhile is_ident_char cs) = LPAREN # RPAREN # r"
    and d3: "dropWhile is_space r = LBRACE # rest"
    and n: "n = c # takeWhile is_ident_char cs"
    by (auto simp: function_match_def split: list.splits if_splits)
  have sp: "\<not> is_space LBRACE" "\<not> is_space LPAREN" "\<not> is_space RPAREN"
    by (simp_all add: is_space_def)
  have i3: "has_ink (dropWhile is_space r)"
    using d3 sp by (simp add: has_ink_def)
  then have ir: "has_ink r" by (rule has_ink_dropWhile)
  have i2: "has_ink (dropWhile is_space (dropWhile is_ident_char cs))"
    using d2 sp by (simp add: has_ink_def)
  then have i1: "has_ink (dropWhile is_ident_char cs)" by (rule has_ink_dropWhile)
  have s: "strip l = c # rstrip cs"
    using l c by (simp add: strip_ink_first ident_not_space)
  have t: "takeWhile is_ident_char (rstrip cs) = takeWhile is_ident_char cs"
    using i1 by (rule dropWhile_rstrip(2))
  have "dropWhile is_space (dropWhile is_ident_char (rstrip cs))
      = rstrip (LPAREN # RPAREN # r)"
    using dropWhile_rstrip(1) [OF i1] dropWhile_rstrip(1) [OF i2] d2 by simp
  also have "\<dots> = LPAREN # RPAREN # rstrip r"
    using sp by (simp add: rstrip_Cons_ink)
  finally have e2: "dropWhile is_space (dropWhile is_ident_char (rstrip cs))
      = LPAREN # RPAREN # rstrip r" .
  have e3: "dropWhile is_space (rstrip r) = LBRACE # rstrip rest"
    using dropWhile_rstrip(1) [OF i3] d3 sp by (simp add: rstrip_Cons_ink)
  show ?thesis
    using c n by (simp add: s function_match_def e2 e3 t)
qed

lemma raw_header_is_removed_header:
  "function_match l = Some n \<Longrightarrow> n \<in> F \<Longrightarrow> is_removed_header F l"
  by (simp add: is_removed_header_def function_match_strip)

lemmas remover_eval = py_def strip_def function_match_def is_space_def is_ident_start_def
  is_ident_char_def count_def remove_duplicate_functions_def is_removed_header_def Let_def

text \<open>
  C3, as stated, with a header a line that matches the pattern from its first character:
  when no line of the input is the header of a function to delete, the output is the
  input. In \<open>indented_input\<close> no line is such a header, the indented header of \<open>foo\<close>
  matches once stripped, and the output is the last line alone.
\<close>

theorem indented_header_counterexample:
  "list_all (\<lambda>l. function_match l \<noteq> Some (py ''foo'')) (split_nl indented_input)
   \<and> remove_duplicate_functions indented_input {py ''foo''} = py ''bar''
   \<and> remove_duplicate_functions indented_input {py ''foo''} \<noteq> indented_input"
  by (simp add: indented_input_def remover_eval)

text \<open>
  C3, amended: a line is the header of a function when it matches the pattern once its
  leading and trailing whitespace is stripped. For every text and every set of names to
  delete: no line of the output is the header of a deleted function (nor does a line of
  the output match the pattern as it is); the output is the join of emitted lines that are
  lines of the input, unchanged and in their original order; and when no line of the input
  is the header of a function to delete, the output is the input.
\<close>

theorem remove_duplicate_functions_guarantee:
  "(\<forall>l \<in> set (split_nl (remove_duplicate_functions content F)).
      \<not> is_removed_header F l \<and> (\<forall>n \<in> F. function_match l \<noteq> Some n))
   \<and> (\<exists>emitted. remove_duplicate_functions content F = join_nl emitted
         \<and> subseq emitted (split_nl content))
   \<and> ((\<forall>l \<in> set (split_nl content). \<not> is_removed_header F l) \<longrightarrow>
        remove_duplicate_functions content F = content)"
proof (intro conjI impI)
  show "\<forall>l \<in> set (split_nl (remove_duplicate_functions content F)).
      \<not> is_removed_header F l \<and> (\<forall>n \<in> F. function_match l \<noteq> Some n)"
    by (blast dest: remove_duplicate_functions_no_header raw_header_is_removed_header)
  show "\<exists>emitted. remove_duplicate_functions content F = join_nl emitted
          \<and> subseq emitted (split_nl content)"
    unfolding remove_duplicate_functions_def
    using remove_loop_subseq by blast
  show "remove_duplicate_functions content F = content"
    if "\<forall>l \<in> set (split_nl content). \<not> is_removed_header F l"
    using that by (rule remove_duplicate_functions_id)
qed

theorem remove_duplicate_functions_guarantee_witness:
  "list_all (\<lambda>l. \<not> is_removed_header {py ''foo''} l) (split_nl (py ''x=1\<newline>bar() {\<newline>}''))
   \<and> remove_duplicate_functions (py ''x=1\<newline>bar() {\<newline>}'') {py ''foo''}
       = py ''x=1\<newline>bar() {\<newline>}''
   \<and> remove_duplicate_functions (py ''foo() {\<newline>  echo hi\<newline>}\<newline>bar'') {py ''foo''} = py ''bar''
   \<and> list_all (\<lambda>l. \<not> is_removed_header {py ''foo''} l) (split_nl (py ''bar''))"
proof -
  have h: "\<forall>l \<in> set (split_nl (py ''x=1\<newline>bar() {\<newline>}'')). \<not> is_removed_header {py ''foo''} l"
    by (simp add: remover_eval)
  have r: "remove_duplicate_functions (py ''foo() {\<newline>  echo hi\<newline>}\<newline>bar'') {py ''foo''} = py ''bar''"
    by (simp add: remover_eval)
  show ?thesis
    using h r
      remove_duplicate_functions_guarantee [of "py ''x=1\<newline>bar() {\<newline>}''" "{py ''foo''}"]
      remove_duplicate_functions_guarantee [of "py ''foo() {\<newline>  echo hi\<newline>}\<newline>bar''" "{py ''foo''}"]
    by (simp add: list_all_iff)
qed

text \<open>
  C4, as stated: on the nested-braces text with \<open>foo\<close> to delete, the \<open>bar\<close> function
  would be the output. It is not.
\<close>

theorem nested_braces_counterexample:
  "remove_duplicate_functions nested_input {py ''foo''} \<noteq> bar_block"
  by (simp add: nested_input_def bar_block_def remover_eval)

text \<open>
  C4, amended. The brace inside the string literal of line 3 is counted, the depth is still
  1 at the closing brace of \<open>foo\<close>, and every later line is dropped: the output is the empty
  text. With no brace on line 3, lines 1 to 5 are removed and \<open>bar\<close> is kept verbatim.
\<close>

theorem nested_braces_drops_everything:
  "remove_duplicate_functions nested_input {py ''foo''} = []
   \<and> remove_duplicate_functions nested_input_plain {py ''foo''} = bar_block"
  by (simp add: nested_input_def nested_input_plain_def bar_block_def remover_eval)

text \<open>
  C5. Removing the functions of \<open>F\<close> from a text and then from the result gives the result
  of the single removal.
\<close>

theorem remove_duplicate_functions_idempotent:
  "remove_duplicate_functions (remove_duplicate_functions T F) F
     = remove_duplicate_functions T F"
  by (rule remove_duplicate_functions_id) (blast dest: remove_duplicate_functions_no_header)

section \<open>The framework-import injector: a second call\<close>

lemmas injector_eval = remover_eval test_functions_def ui_functions_def
  should_add_test_framework_def should_add_ui_framework_def test_import_block_def
  ui_import_block_def lower_def add_framework_import_def update_content_def list_insert_def
  sublist_code

lemma strip_sublist: "sublist (strip l) l"
proof -
  have "prefix (rev (dropWhile is_space (rev (dropWhile is_space l)))) (dropWhile is_space l)"
    using suffix_dropWhile [of is_space "rev (dropWhile is_space l)"]
    by (simp add: suffix_to_prefix)
  moreover have "suffix (dropWhile is_space l) l"
    by (rule suffix_dropWhile)
  ultimately show ?thesis
    unfolding strip_def
    by (meson prefix_imp_sublist suffix_imp_sublist sublist_order.order_trans)
qed

lemma function_match_prefix: "function_match s = Some n \<Longrightarrow> prefix n s"
proof -
  assume m: "function_match s = Some n"
  then obtain c cs where s: "s = c # cs" and n: "n = c # takeWhile is_ident_char cs"
    by (auto simp: function_match_def split: list.splits if_splits)
  have "prefix (takeWhile is_ident_char cs) cs"
    by (metis prefixI takeWhile_dropWhile_id)
  with s n show ?thesis by simp
qed

lemma header_name_sublist:
  assumes "is_removed_header F l"
  shows "\<exists>n \<in> F. sublist n l"
proof -
  from assms obtain n where n: "function_match (strip l) = Some n" "n \<in> F"
    by (auto simp: is_removed_header_def split: option.splits)
  then have "sublist n (strip l)"
    by (blast dest: function_match_prefix)
  then have "sublist n l"
    using strip_sublist sublist_order.order_trans by blast
  with n show ?thesis by blast
qed

lemma line_sublist_join: "l \<in> set ls \<Longrightarrow> sublist l (join_nl ls)"
proof (induction ls rule: join_nl.induct)
  case 1
  then show ?case by simp
next
  case (2 k)
  then show ?case by simp
next
  case (3 k m ms)
  show ?case
  proof (cases "l = k")
    case True
    then show ?thesis by (simp add: sublist_append_rightI)
  next
    case False
    with 3 have "sublist l (join_nl (m # ms))" by simp
    then have "sublist l ((k @ [NL]) @ join_nl (m # ms))"
      by (metis sublist_append)
    then show ?thesis by simp
  qed
qed

lemma line_sublist: "l \<in> set (split_nl c) \<Longrightarrow> sublist l c"
  using line_sublist_join [of l "split_nl c"] by (simp add: join_split_nl)

lemma no_name_no_header:
  assumes "\<not> (\<exists>f \<in> F. sublist f c)" and "l \<in> set (split_nl c)"
  shows "\<not> is_removed_header F l"
proof
  assume "is_removed_header F l"
  then obtain n where "n \<in> F" "sublist n l"
    by (blast dest: header_name_sublist)
  moreover have "sublist l c"
    using assms(2) by (rule line_sublist)
  ultimately have "n \<in> F" "sublist n c"
    using sublist_order.order_trans by blast+
  with assms(1) show False by blast
qed

lemma split_nl_append_NL: "split_nl (a @ NL # b) = split_nl a @ split_nl b"
proof (induction a)
  case Nil
  show ?case by simp
next
  case (Cons c a)
  obtain l ls where sp: "split_nl a = l # ls"
    using split_nl_not_Nil [of a] by (cases "split_nl a") auto
  with Cons show ?case by simp
qed

lemma split_join_concat: "ls \<noteq> [] \<Longrightarrow> split_nl (join_nl ls) = concat (map split_nl ls)"
proof (induction ls rule: join_nl.induct)
  case 1
  then show ?case by simp
next
  case (2 l)
  show ?case by simp
next
  case (3 l k ks)
  then show ?case by (simp add: split_nl_append_NL)
qed

lemma split_nl_fixed: "l \<in> set ls \<Longrightarrow> ls = split_nl c \<Longrightarrow> split_nl l = [l]"
  by (simp add: split_nl_line split_nl_no_newline)

lemma inserted_lines:
  assumes "x \<in> set (split_nl (join_nl (list_insert (split_nl c) i b)))"
  shows "x \<in> set (split_nl c) \<or> x \<in> set (split_nl b)"
proof -
  have ne: "list_insert (split_nl c) i b \<noteq> []"
    by (simp add: list_insert_def)
  from assms obtain y where y: "y \<in> set (list_insert (split_nl c) i b)" "x \<in> set (split_nl y)"
    by (auto simp: split_join_concat [OF ne])
  then have "y = b \<or> y \<in> set (split_nl c)"
    by (auto simp: list_insert_def dest: in_set_takeD in_set_dropD)
  then show ?thesis
  proof
    assume "y = b"
    with y show ?thesis by simp
  next
    assume "y \<in> set (split_nl c)"
    then have "split_nl y = [y]"
      by (simp add: split_nl_line split_nl_no_newline)
    with y \<open>y \<in> set (split_nl c)\<close> show ?thesis by simp
  qed
qed

lemma block_lines_no_header:
  "l \<in> set (split_nl test_import_block) \<or> l \<in> set (split_nl ui_import_block) \<Longrightarrow>
   function_match (strip l) = None"
  by (auto simp: test_import_block_def ui_import_block_def py_def strip_def function_match_def
      is_space_def is_ident_start_def is_ident_char_def)

lemma add_framework_import_no_header:
  assumes "no_header F c"
  shows "no_header F (add_framework_import c ft)"
proof -
  have blk: "\<not> is_removed_header F l"
    if "l \<in> set (split_nl test_import_block) \<or> l \<in> set (split_nl ui_import_block)" for l
    using block_lines_no_header [OF that] by (simp add: is_removed_header_def)
  show ?thesis
    using assms blk
    unfolding no_header_def add_framework_import_def Let_def
    by (auto dest!: inserted_lines)
qed

lemma remove_no_header_other:
  assumes "no_header F c"
  shows "no_header F (remove_duplicate_functions c G)"
proof -
  define E where "E = remove_loop G (split_nl c) False 0 []"
  have sub: "l \<in> set E \<Longrightarrow> l \<in> set (split_nl c)" for l
    unfolding E_def by (rule remove_loop_lines)
  show ?thesis
  proof (cases "E = []")
    case True
    then show ?thesis
      by (simp add: no_header_def remove_duplicate_functions_def E_def [symmetric]
          empty_line_no_header)
  next
    case False
    have "\<forall>x \<in> set E. NL \<notin> set x"
      using sub split_nl_no_newline by blast
    with False have "split_nl (join_nl E) = E"
      by (simp add: split_join_nl)
    then show ?thesis
      using assms sub
      by (auto simp: no_header_def remove_duplicate_functions_def E_def [symmetric])
  qed
qed

lemma remove_no_header_self: "no_header F (remove_duplicate_functions c F)"
  unfolding no_header_def by (blast dest: remove_duplicate_functions_no_header)

lemma remove_id: "no_header F c \<Longrightarrow> remove_duplicate_functions c F = c"
  unfolding no_header_def by (rule remove_duplicate_functions_id)

lemma update_content_stages: "fst (update_content c) = ui_stage (test_stage c)"
  by (simp add: update_content_def test_stage_def ui_stage_def Let_def split: prod.splits)

lemma test_stage_no_test_header: "no_header test_functions (test_stage c)"
proof (cases "should_add_test_framework c")
  case True
  then show ?thesis
    by (simp add: test_stage_def remove_no_header_self)
next
  case False
  then have "\<not> (\<exists>f \<in> test_functions. sublist f c)"
    by (simp add: should_add_test_framework_def)
  then have "no_header test_functions c"
    unfolding no_header_def by (blast dest: no_name_no_header)
  with False show ?thesis
    by (simp add: test_stage_def)
qed

lemma ui_stage_no_ui_header: "no_header ui_functions (ui_stage c)"
proof (cases "should_add_ui_framework c")
  case True
  then show ?thesis
    by (simp add: ui_stage_def remove_no_header_self)
next
  case False
  then have "\<not> (\<exists>f \<in> ui_functions. sublist f c)"
    by (simp add: should_add_ui_framework_def)
  then have "no_header ui_functions c"
    unfolding no_header_def by (blast dest: no_name_no_header)
  with False show ?thesis
    by (simp add: ui_stage_def)
qed

lemma ui_stage_keeps_no_header: "no_header F c \<Longrightarrow> no_header F (ui_stage c)"
  unfolding ui_stage_def
  by (simp add: remove_no_header_other add_framework_import_no_header)

lemma test_stage_id:
  "no_header test_functions c \<Longrightarrow>
   (should_add_test_framework c \<longrightarrow> sublist (py ''test_framework_core.sh'') c) \<Longrightarrow>
   test_stage c = c"
  unfolding test_stage_def by (simp add: remove_id)

lemma ui_stage_id:
  "no_header ui_functions c \<Longrightarrow>
   (should_add_ui_framework c \<longrightarrow> sublist (py ''print_utils.sh'') c) \<Longrightarrow>
   ui_stage c = c"
  unfolding ui_stage_def by (simp add: remove_id)

lemma update_content_fixed:
  assumes "should_add_test_framework (fst (update_content c)) \<longrightarrow>
             sublist (py ''test_framework_core.sh'') (fst (update_content c))"
    and "should_add_ui_framework (fst (update_content c)) \<longrightarrow>
             sublist (py ''print_utils.sh'') (fst (update_content c))"
  shows "fst (update_content (fst (update_content c))) = fst (update_content c)"
proof -
  define d where "d = fst (update_content c)"
  have d: "d = ui_stage (test_stage c)"
    by (simp add: d_def update_content_stages)
  have t: "no_header test_functions d"
    unfolding d by (rule ui_stage_keeps_no_header) (rule test_stage_no_test_header)
  have u: "no_header ui_functions d"
    unfolding d by (rule ui_stage_no_ui_header)
  have "test_stage d = d"
    using t assms(1) by (simp add: test_stage_id d_def)
  moreover have "ui_stage d = d"
    using u assms(2) by (simp add: ui_stage_id d_def)
  ultimately have "fst (update_content d) = d"
    by (simp add: update_content_stages)
  then show ?thesis
    by (simp add: d_def)
qed

lemma update_content_changed:
  "fst (update_content c) \<noteq> c \<Longrightarrow> snd (update_content c)"
  by (auto simp: update_content_def Let_def split: prod.splits if_splits)

lemma update_file_ok:
  assumes "files self p = Some c" "\<not> read_fails env p" "write_fault env p = None"
  shows "files (fst (update_file env self p)) = (files self)(p \<mapsto> fst (update_content c))"
proof (cases "fst (update_content c) = c")
  case True
  with assms show ?thesis
    by (auto simp: update_file_def read_text_def split: prod.splits)
next
  case False
  then have "snd (update_content c)" by (rule update_content_changed)
  with False assms show ?thesis
    by (auto simp: update_file_def read_text_def write_text_def split: prod.splits)
qed

lemma update_file_fixed:
  assumes "files self p = Some d" "fst (update_content d) = d"
  shows "update_file env self p = (self, False) \<or> read_fails env p"
  using assms by (auto simp: update_file_def read_text_def split: prod.splits)


lemma subseq_count_list: "subseq xs ys \<Longrightarrow> count_list xs a \<le> count_list ys a"
  by (induction rule: list_emb.induct) auto

lemma remove_count_lines:
  assumes "a \<noteq> []"
  shows "count_list (split_nl (remove_duplicate_functions c F)) a \<le> count_list (split_nl c) a"
proof -
  define E where "E = remove_loop F (split_nl c) False 0 []"
  have sub: "subseq E (split_nl c)"
    unfolding E_def by (rule remove_loop_subseq)
  show ?thesis
  proof (cases "E = []")
    case True
    with assms show ?thesis
      by (simp add: remove_duplicate_functions_def E_def [symmetric])
  next
    case False
    have "\<forall>x \<in> set E. NL \<notin> set x"
      using sub split_nl_no_newline by (blast dest: subseq_member)
    with False have "split_nl (join_nl E) = E"
      by (simp add: split_join_nl)
    with sub show ?thesis
      by (simp add: remove_duplicate_functions_def E_def [symmetric] subseq_count_list)
  qed
qed

lemma concat_split_lines: "\<forall>l \<in> set xs. NL \<notin> set l \<Longrightarrow> concat (map split_nl xs) = xs"
  by (induction xs) (auto simp: split_nl_line)

lemma inserted_count_lines:
  "count_list (split_nl (join_nl (list_insert (split_nl c) i b))) a
     = count_list (split_nl c) a + count_list (split_nl b) a"
proof -
  let ?ls = "split_nl c"
  have ne: "list_insert ?ls i b \<noteq> []"
    by (simp add: list_insert_def)
  have nl: "\<forall>l \<in> set (take i ?ls). NL \<notin> set l" "\<forall>l \<in> set (drop i ?ls). NL \<notin> set l"
    by (auto dest: in_set_takeD in_set_dropD split_nl_no_newline)
  have "split_nl (join_nl (list_insert ?ls i b)) = concat (map split_nl (list_insert ?ls i b))"
    using ne by (rule split_join_concat)
  also have "\<dots> = take i ?ls @ split_nl b @ drop i ?ls"
    by (simp add: list_insert_def concat_split_lines nl)
  finally have e: "split_nl (join_nl (list_insert ?ls i b))
      = take i ?ls @ split_nl b @ drop i ?ls" .
  have "count_list (take i ?ls) a + count_list (drop i ?ls) a
      = count_list (take i ?ls @ drop i ?ls) a"
    by (simp only: count_list_append)
  then have "count_list (take i ?ls) a + count_list (drop i ?ls) a = count_list ?ls a"
    by (simp only: append_take_drop_id)
  then show ?thesis
    by (simp add: e)
qed

lemma add_framework_import_count:
  "count_list (split_nl (add_framework_import c ft)) a
     = count_list (split_nl c) a
       + (if ft = py ''test'' then count_list (split_nl test_import_block) a
          else if ft = py ''ui'' then count_list (split_nl ui_import_block) a else 0)"
  by (simp add: add_framework_import_def Let_def inserted_count_lines)

lemma block_comment_counts:
  "count_list (split_nl test_import_block) test_block_comment = 1"
  "count_list (split_nl ui_import_block) test_block_comment = 0"
  "count_list (split_nl test_import_block) ui_block_comment = 0"
  "count_list (split_nl ui_import_block) ui_block_comment = 1"
  by (simp_all add: test_import_block_def ui_import_block_def test_block_comment_def
      ui_block_comment_def py_def)

lemma test_stage_count:
  assumes "a \<noteq> []"
  shows "count_list (split_nl (test_stage c)) a
     \<le> count_list (split_nl c) a + count_list (split_nl test_import_block) a"
proof -
  have "count_list (split_nl (remove_duplicate_functions x test_functions)) a
      \<le> count_list (split_nl x) a" for x
    using assms by (rule remove_count_lines)
  from this [of c] this [of "add_framework_import c (py ''test'')"]
  show ?thesis
    by (simp add: test_stage_def add_framework_import_count)
qed

lemma ui_stage_count:
  assumes "a \<noteq> []"
  shows "count_list (split_nl (ui_stage c)) a
     \<le> count_list (split_nl c) a + count_list (split_nl ui_import_block) a"
proof -
  have "count_list (split_nl (remove_duplicate_functions x ui_functions)) a
      \<le> count_list (split_nl x) a" for x
    using assms by (rule remove_count_lines)
  from this [of c] this [of "add_framework_import c (py ''ui'')"]
  show ?thesis
    by (simp add: ui_stage_def add_framework_import_count py_def)
qed

lemma one_import_block_per_call:
  "count_list (split_nl (fst (update_content c))) test_block_comment
     \<le> count_list (split_nl c) test_block_comment + 1"
  "count_list (split_nl (fst (update_content c))) ui_block_comment
     \<le> count_list (split_nl c) ui_block_comment + 1"
proof -
  have t: "test_block_comment \<noteq> []" and u: "ui_block_comment \<noteq> []"
    by (simp_all add: test_block_comment_def ui_block_comment_def py_def)
  show "count_list (split_nl (fst (update_content c))) test_block_comment
     \<le> count_list (split_nl c) test_block_comment + 1"
    using ui_stage_count [OF t, of "test_stage c"] test_stage_count [OF t, of c]
    by (simp add: update_content_stages block_comment_counts)
  show "count_list (split_nl (fst (update_content c))) ui_block_comment
     \<le> count_list (split_nl c) ui_block_comment + 1"
    using ui_stage_count [OF u, of "test_stage c"] test_stage_count [OF u, of c]
    by (simp add: update_content_stages block_comment_counts)
qed

text \<open>
  C6. A second call on the output of the first should change nothing. On the script whose
  helper \<open>setup_test_environment\<close> loads the environment on demand, the first call puts the
  import block after the \<open>fi\<close> inside the helper and then removes the helper, the block
  with it: what is left calls the helper with neither its definition nor the import. The
  second call finds the helper's name and no import, and inserts the block: its output is
  not the output of the first call.
\<close>

theorem update_twice_counterexample:
  "fst (update_content lazy_env_test) = py ''setup_test_environment\<newline>''
   \<and> fst (update_content (fst (update_content lazy_env_test)))
       = test_import_block @ NL # py ''setup_test_environment\<newline>''
   \<and> fst (update_content (fst (update_content lazy_env_test)))
       \<noteq> fst (update_content lazy_env_test)"
proof -
  have a: "fst (update_content lazy_env_test) = py ''setup_test_environment\<newline>''"
    by (simp add: lazy_env_test_def injector_eval)
  have b: "fst (update_content (py ''setup_test_environment\<newline>''))
             = test_import_block @ NL # py ''setup_test_environment\<newline>''"
    by (simp add: injector_eval)
  show ?thesis
    unfolding a b by (simp add: py_def test_import_block_def)
qed

text \<open>
  Where the defect does not show. A call adds at most one import block for each framework
  (the lines of the output that are a block's opening comment are at most one more than
  those of the input). When the output of a call is already-imported content (for each
  framework, a name of the framework's functions occurs in it only if the framework's
  source path does), a second call computes the same content; on a file that can be read
  and written, the first call leaves that content in the file and the second call changes
  nothing and returns \<open>False\<close>.
\<close>

theorem update_file_second_call_noop:
  assumes "files self p = Some c" and "\<not> read_fails env p" and "write_fault env p = None"
    and "should_add_test_framework (fst (update_content c)) \<longrightarrow>
           sublist (py ''test_framework_core.sh'') (fst (update_content c))"
    and "should_add_ui_framework (fst (update_content c)) \<longrightarrow>
           sublist (py ''print_utils.sh'') (fst (update_content c))"
  shows "fst (update_content (fst (update_content c))) = fst (update_content c)
    \<and> files (fst (update_file env self p)) p = Some (fst (update_content c))
    \<and> update_file env (fst (update_file env self p)) p = (fst (update_file env self p), False)
    \<and> count_list (split_nl (fst (update_content c))) test_block_comment
        \<le> count_list (split_nl c) test_block_comment + 1
    \<and> count_list (split_nl (fst (update_content c))) ui_block_comment
        \<le> count_list (split_nl c) ui_block_comment + 1"
proof -
  have i: "fst (update_content (fst (update_content c))) = fst (update_content c)"
    using assms(4,5) by (rule update_content_fixed)
  have f: "files (fst (update_file env self p)) p = Some (fst (update_content c))"
    using update_file_ok [OF assms(1-3)] by simp
  show ?thesis
    using i f update_file_fixed [OF f i, of env] assms(2) one_import_block_per_call [of c]
    by simp
qed

theorem update_file_second_call_noop_witness:
  "fst (update_content (fst (update_content plain_test))) = fst (update_content plain_test)
   \<and> fst (update_content plain_test) = test_import_block @ NL # plain_test
   \<and> update_file no_faults
        (fst (update_file no_faults
           \<lparr>files = [py ''t.sh'' \<mapsto> plain_test], out = [], changes_made = 0, files_updated = 0\<rparr>
           (py ''t.sh''))) (py ''t.sh'')
      = (fst (update_file no_faults
           \<lparr>files = [py ''t.sh'' \<mapsto> plain_test], out = [], changes_made = 0, files_updated = 0\<rparr>
           (py ''t.sh'')), False)"
proof -
  have w1: "fst (update_content plain_test) = test_import_block @ NL # plain_test"
    by (simp add: plain_test_def injector_eval)
  have w2: "sublist (py ''test_framework_core.sh'') (test_import_block @ NL # plain_test)"
    by (simp add: plain_test_def injector_eval)
  have w3: "\<not> should_add_ui_framework (test_import_block @ NL # plain_test)"
    by (simp add: plain_test_def injector_eval)
  show ?thesis
    using w1 w2 w3
      update_file_second_call_noop [of
        "\<lparr>files = [py ''t.sh'' \<mapsto> plain_test], out = [], changes_made = 0, files_updated = 0\<rparr>"
        "py ''t.sh''" plain_test no_faults]
    by (simp add: no_faults_def)
qed

section \<open>The bootstrap migrator: files left unchanged, writes that fail\<close>

lemma backup_of_neq [simp]: "backup_of p \<noteq> p" "p \<noteq> backup_of p"
  by (simp_all add: backup_of_def py_def)

lemma migrate_file_noop:
  assumes "files w p = Some content" "\<not> read_fails env p" "copy_fault env p = CopyDone"
    "\<not> remove_fails env (backup_of p)" "old_pattern_sub content = content"
  shows "migrate_file env w p =
    Inr (w\<lparr>files := (files w)(backup_of p := None),
            out := out w @ [Migrating p, NoChangesMade p]\<rparr>, False)"
  using assms
  by (simp add: migrate_file_def read_text_def copy2_def remove_file_def Let_def)

lemma migrate_file_write_fails:
  assumes "files w p = Some content" "\<not> read_fails env p" "copy_fault env p = CopyDone"
    "old_pattern_sub content \<noteq> content" "write_fault env p = Some left"
    "\<not> move_fails env (backup_of p)"
  shows "migrate_file env w p =
    Inr (w\<lparr>files := (files w)(backup_of p := None),
            out := out w @ [Migrating p, ErrorMigrating p]\<rparr>, False)"
proof -
  have "(files w)(backup_of p \<mapsto> content, p \<mapsto> left, p \<mapsto> content, backup_of p := None)
          = (files w)(backup_of p := None)"
    using assms(1) by (auto simp: fun_eq_iff)
  with assms show ?thesis
    by (simp add: migrate_file_def read_text_def copy2_def write_text_def move_def
        restore_on_error_def Let_def)
qed

lemma restore_on_error_False: "restore_on_error env w p = Inr (w', b) \<Longrightarrow> \<not> b"
  by (auto simp: restore_on_error_def Let_def split: if_splits option.splits)

lemma migrate_file_True:
  assumes "migrate_file env w p = Inr (w', True)"
  shows "out w' = out w @ [Migrating p, SuccessfullyMigrated p]"
  using assms
  by (auto simp: migrate_file_def Let_def
      split: option.splits if_splits sum.splits dest: restore_on_error_False)

lemma migrate_loop_errors:
  assumes "migrate_loop env w fs m e = Inr (w', m', e')"
    and "no_change_printed w \<longrightarrow> 0 < e"
  shows "no_change_printed w' \<longrightarrow> 0 < e'"
  using assms
proof (induction fs arbitrary: w m e)
  case Nil
  then show ?case by simp
next
  case (Cons p ps)
  from Cons.prems(1) obtain w1 b where r: "migrate_file env w p = Inr (w1, b)"
    by (auto split: sum.splits)
  show ?case
  proof (cases b)
    case True
    with r have "out w1 = out w @ [Migrating p, SuccessfullyMigrated p]"
      by (simp add: migrate_file_True)
    then have "no_change_printed w1 = no_change_printed w"
      by (auto simp: no_change_printed_def)
    with Cons.prems r True Cons.IH [of w1 "m + 1" e] show ?thesis
      by simp
  next
    case False
    with Cons.prems r Cons.IH [of w1 m "e + 1"] show ?thesis
      by simp
  qed
qed

lemma main_no_change_exit:
  assumes "out w = []" and "no_change_printed (world_of (main env w globbed))"
  shows "exit_code (main env w globbed) = 1"
proof -
  define sf where "sf = find_shell_files (files w) globbed"
  define fm where "fm = filter (needs_migration env (files w)) sf"
  define w0 where "w0 = w\<lparr>out := [StartingMigration, FoundShellFiles (length sf),
    FoundToMigrate (length fm)]\<rparr>"
  have nc0: "\<not> no_change_printed w0"
    by (simp add: w0_def no_change_printed_def)
  have m: "main env w globbed =
     (if fm = [] then Inr (w0\<lparr>out := out w0 @ [NoFilesNeedMigration]\<rparr>, True)
      else (case migrate_loop env w0 fm 0 0 of
              Inl w \<Rightarrow> Inl w
            | Inr (w, migrated_count, error_count) \<Rightarrow>
                (let w = w\<lparr>out := out w @
                           [MigrationSummary migrated_count error_count (length sf)]\<rparr>
                 in if error_count = 0 then
                      Inr (w\<lparr>out := out w @ [MigrationCompleted]\<rparr>, True)
                    else Inr (w\<lparr>out := out w @ [MigrationCompletedWithErrors]\<rparr>, False))))"
    using assms(1)
    by (simp add: main_def Let_def sf_def fm_def w0_def cong: sum.case_cong prod.case_cong)
  show ?thesis
  proof (cases "fm = []")
    case True
    with assms(2) nc0 show ?thesis
      by (simp add: m world_of_def no_change_printed_def w0_def)
  next
    case False
    show ?thesis
    proof (cases "migrate_loop env w0 fm 0 0")
      case (Inl w1)
      with False show ?thesis by (simp add: m exit_code_def)
    next
      case (Inr r)
      obtain w1 m1 e1 where r: "r = (w1, m1, e1)" by (cases r)
      have "no_change_printed w1 \<longrightarrow> 0 < e1"
        using migrate_loop_errors [of env w0 fm 0 0 w1 m1 e1] Inr r nc0 by simp
      moreover have "no_change_printed w1"
        using assms(2) False Inr r
        by (auto simp: m world_of_def no_change_printed_def Let_def split: if_splits)
      ultimately show ?thesis
        using False Inr r by (simp add: m exit_code_def Let_def)
    qed
  qed
qed

lemmas migrator_eval = py_def is_space_def match_fi_def match_if_def old_pattern_match_def
  load_comment_def if_env_not_loaded_def legacy_path_def

lemma no_match_sub_id:
  "(\<And>t. suffix t content \<Longrightarrow> old_pattern_match t = None) \<Longrightarrow> old_pattern_sub content = content"
proof (induction content)
  case Nil
  show ?case by simp
next
  case (Cons c cs)
  have "old_pattern_match (c # cs) = None"
    by (rule Cons.prems) simp
  moreover have "old_pattern_sub cs = cs"
    by (rule Cons.IH) (simp add: Cons.prems suffix_ConsI)
  ultimately show ?case by simp
qed

lemma sourcing_script_unchanged: "old_pattern_sub sourcing_script = sourcing_script"
  by (simp add: sourcing_script_def migrator_eval)

lemma legacy_script_changed: "old_pattern_sub legacy_script \<noteq> legacy_script"
  by (simp add: legacy_script_def migrator_eval NEW_BOOTSTRAP_PATTERN_def)

lemma sourcing_script_needs_migration:
  "needs_migration no_faults [tools_run \<mapsto> sourcing_script] tools_run"
  by (simp add: needs_migration_def read_text_def no_faults_def sourcing_script_def
      legacy_path_def py_def sublist_code)

lemma tools_run_found:
  "find_shell_files [tools_run \<mapsto> sourcing_script] [tools_run] = [tools_run]"
  by (simp add: find_shell_files_def tools_run_def py_def suffix_to_prefix)

lemma noop_run:
  "main no_faults one_sourcing_script [tools_run] =
     Inr (\<lparr>files = [tools_run \<mapsto> sourcing_script](backup_of tools_run := None),
           out = [StartingMigration, FoundShellFiles 1, FoundToMigrate 1, Migrating tools_run,
                  NoChangesMade tools_run, MigrationSummary 0 1 1,
                  MigrationCompletedWithErrors]\<rparr>, False)"
proof -
  have "migrate_file no_faults
          \<lparr>files = [tools_run \<mapsto> sourcing_script],
           out = [StartingMigration, FoundShellFiles 1, FoundToMigrate 1]\<rparr> tools_run
        = Inr (\<lparr>files = [tools_run \<mapsto> sourcing_script](backup_of tools_run := None),
                out = [StartingMigration, FoundShellFiles 1, FoundToMigrate 1,
                       Migrating tools_run, NoChangesMade tools_run]\<rparr>, False)"
    using migrate_file_noop [of _ tools_run sourcing_script no_faults]
      sourcing_script_unchanged
    by (simp add: no_faults_def)
  then show ?thesis
    by (simp add: main_def one_sourcing_script_def tools_run_found
        sourcing_script_needs_migration Let_def)
qed

text \<open>
  C1, as stated: a run in which every processed file is left unchanged, and nothing fails,
  ends with exit code 0. A project whose one script sources the legacy file without the
  legacy block is such a run: the script is reported as unchanged and keeps its content,
  and the run ends with \<open>MigrationCompletedWithErrors\<close> and a non-zero exit code.
\<close>

theorem noop_run_counterexample:
  "old_pattern_sub sourcing_script = sourcing_script
   \<and> out (world_of (main no_faults one_sourcing_script [tools_run]))
       = [StartingMigration, FoundShellFiles 1, FoundToMigrate 1, Migrating tools_run,
          NoChangesMade tools_run, MigrationSummary 0 1 1, MigrationCompletedWithErrors]
   \<and> files (world_of (main no_faults one_sourcing_script [tools_run])) tools_run
       = Some sourcing_script
   \<and> exit_code (main no_faults one_sourcing_script [tools_run]) \<noteq> 0"
  by (simp add: noop_run sourcing_script_unchanged world_of_def exit_code_def)

text \<open>
  C1, amended. When the substitution leaves a file's content as it is (in particular when
  the pattern matches nowhere) and the read, the copy and the removal succeed,
  \<open>migrate_file\<close> reports the file as unchanged, removes the backup, leaves every other
  file as it was and returns \<open>False\<close>; \<open>main\<close> counts that as an error, so a run that
  reports any file as unchanged ends with exit code 1.
\<close>

theorem no_match_counts_as_error:
  "(files w p = Some content \<and> \<not> read_fails env p \<and> copy_fault env p = CopyDone
      \<and> \<not> remove_fails env (backup_of p) \<and> old_pattern_sub content = content
     \<longrightarrow> migrate_file env w p =
          Inr (w\<lparr>files := (files w)(backup_of p := None),
                  out := out w @ [Migrating p, NoChangesMade p]\<rparr>, False))
   \<and> (out w0 = [] \<and> NoChangesMade q \<in> set (out (world_of (main env w0 globbed)))
     \<longrightarrow> exit_code (main env w0 globbed) = 1)"
  using migrate_file_noop [of w p content env] main_no_change_exit [of w0 env globbed]
  by (auto simp: no_change_printed_def)

theorem no_match_counts_as_error_witness:
  "migrate_file no_faults one_sourcing_script tools_run =
     Inr (one_sourcing_script\<lparr>files := (files one_sourcing_script)(backup_of tools_run := None),
            out := out one_sourcing_script @ [Migrating tools_run, NoChangesMade tools_run]\<rparr>,
          False)
   \<and> exit_code (main no_faults one_sourcing_script [tools_run]) = 1"
proof -
  have a: "files one_sourcing_script tools_run = Some sourcing_script"
    "out one_sourcing_script = []"
    by (simp_all add: one_sourcing_script_def)
  have b: "NoChangesMade tools_run
             \<in> set (out (world_of (main no_faults one_sourcing_script [tools_run])))"
    by (simp add: noop_run world_of_def)
  show ?thesis
    using a b sourcing_script_unchanged
      no_match_counts_as_error [of one_sourcing_script tools_run sourcing_script no_faults
        one_sourcing_script tools_run "[tools_run]"]
    by (simp add: no_faults_def)
qed

lemma migrate_file_restore_fails:
  assumes "files w p = Some content" "\<not> read_fails env p" "copy_fault env p = CopyDone"
    "old_pattern_sub content \<noteq> content" "write_fault env p = Some left"
    "move_fails env (backup_of p)"
  shows "migrate_file env w p =
    Inl (w\<lparr>files := (files w)(backup_of p \<mapsto> content, p \<mapsto> left),
            out := out w @ [Migrating p, ErrorMigrating p]\<rparr>)"
  using assms
  by (simp add: migrate_file_def read_text_def copy2_def write_text_def move_def
      restore_on_error_def Let_def)

text \<open>
  C2, as stated: whenever the write fails, the backup is restored, no backup remains and
  the migration goes on with the next file. On the immutable script the write raises and
  the move of the backup raises too, inside the \<open>except\<close> block, where nothing catches
  it: the exception leaves \<open>migrate_file\<close>, the backup stays, and the loop of \<open>main\<close> ends
  there, the second script never started.
\<close>

theorem restore_failure_counterexample:
  "(\<exists>w'. migrate_file immutable_file two_legacy_scripts tools_run = Inl w'
      \<and> files w' (backup_of tools_run) = Some legacy_script)
   \<and> (\<exists>w'. migrate_loop immutable_file two_legacy_scripts [tools_run, tools_next] 0 0 = Inl w'
      \<and> out w' = [Migrating tools_run, ErrorMigrating tools_run]
      \<and> files w' (backup_of tools_run) = Some legacy_script)"
proof -
  have "migrate_file immutable_file two_legacy_scripts tools_run =
    Inl (two_legacy_scripts
      \<lparr>files := (files two_legacy_scripts)
           (backup_of tools_run \<mapsto> legacy_script, tools_run \<mapsto> legacy_script),
       out := out two_legacy_scripts @ [Migrating tools_run, ErrorMigrating tools_run]\<rparr>)"
    by (rule migrate_file_restore_fails [OF _ _ _ legacy_script_changed])
      (simp_all add: two_legacy_scripts_def immutable_file_def no_faults_def)
  then show ?thesis
    by (simp add: two_legacy_scripts_def)
qed

text \<open>
  C2, amended. When the file is read and copied, the substitution changes its content, the
  write raises (whatever it leaves in the file), and the move that restores the backup
  does not raise, then the file holds its old content again, there is no backup, every
  other file is as it was, the file is reported as failed, \<open>migrate_file\<close> returns \<open>False\<close>
  and the loop goes on with the next file, the error count one higher.
\<close>

theorem write_failure_restores_backup:
  assumes "files w p = Some content" and "\<not> read_fails env p" and "copy_fault env p = CopyDone"
    and "old_pattern_sub content \<noteq> content"
    and "write_fault env p = Some left"
    and "\<not> move_fails env (backup_of p)"
  shows "\<exists>w'. migrate_file env w p = Inr (w', False)
    \<and> files w' p = Some content
    \<and> files w' (backup_of p) = None
    \<and> files w' = (files w)(backup_of p := None)
    \<and> out w' = out w @ [Migrating p, ErrorMigrating p]
    \<and> migrate_loop env w (p # rest) migrated_count error_count
        = migrate_loop env w' rest migrated_count (error_count + 1)"
  using assms(1) migrate_file_write_fails [OF assms]
  by simp

theorem write_failure_restores_backup_witness:
  "\<exists>w'. migrate_file write_fails_truncated one_legacy_script tools_run = Inr (w', False)
    \<and> files w' tools_run = Some legacy_script
    \<and> files w' (backup_of tools_run) = None
    \<and> out w' = [Migrating tools_run, ErrorMigrating tools_run]"
proof -
  have "files one_legacy_script tools_run = Some legacy_script"
    and "\<not> read_fails write_fails_truncated tools_run"
    and "copy_fault write_fails_truncated tools_run = CopyDone"
    and "write_fault write_fails_truncated tools_run = Some []"
    and "\<not> move_fails write_fails_truncated (backup_of tools_run)"
    by (simp_all add: one_legacy_script_def write_fails_truncated_def no_faults_def)
  from write_failure_restores_backup [OF this(1-3) legacy_script_changed this(4,5), of "[]" 0 0]
  obtain w' where "migrate_file write_fails_truncated one_legacy_script tools_run = Inr (w', False)"
    and "files w' tools_run = Some legacy_script"
    and "files w' (backup_of tools_run) = None"
    and "out w' = out one_legacy_script @ [Migrating tools_run, ErrorMigrating tools_run]"
    by blast
  then show ?thesis
    by (simp add: one_legacy_script_def)
qed


section \<open>The audit: complexity\<close>

lemma readlines_line: "NL \<notin> set l \<Longrightarrow> readlines (l @ NL # s) = (l @ [NL]) # readlines s"
  by (induction l) auto

lemma low_ratio: "0 < t \<Longrightarrow> (real c / real t < 1 / 10) = (10 * c < t)"
  by (simp add: field_simps) (metis of_nat_less_iff of_nat_mult of_nat_numeral)

lemma analyze_file_issues:
  "issues (analyze_file self p content) = issues self
     @ (if 300 < count_code_lines (readlines content) then
          [\<lparr>severity = HIGH, category = COMPLEX_FILE, issue_file = p,
            description = HighComplexity (count_code_lines (readlines content))\<rparr>]
        else if 200 < count_code_lines (readlines content) then
          [\<lparr>severity = MEDIUM, category = COMPLEX_FILE, issue_file = p,
            description = MediumComplexity (count_code_lines (readlines content))\<rparr>]
        else [])
     @ (if 50 < length (readlines content)
           \<and> 10 * count_comment_lines (readlines content) < length (readlines content) then
          [\<lparr>severity = LOW, category = LOW_DOCUMENTATION, issue_file = p,
            description = LowCommentRatio (count_comment_lines (readlines content))
              (length (readlines content))\<rparr>]
        else [])"
proof (cases "50 < length (readlines content)")
  case True
  then have "(real (count_comment_lines (readlines content)) / real (length (readlines content)) < 1 / 10)
      = (10 * count_comment_lines (readlines content) < length (readlines content))"
    by (intro low_ratio) auto
  with True show ?thesis
    by (simp add: analyze_file_def log_issue_def Let_def)
next
  case False
  then show ?thesis
    by (simp add: analyze_file_def log_issue_def Let_def)
qed

lemma strip_rstrip: "strip l = rstrip (dropWhile is_space l)"
  by (simp add: strip_def rstrip_def)

lemma strip_empty_iff: "strip l = [] \<longleftrightarrow> blank_line l"
proof
  assume e: "strip l = []"
  show "blank_line l"
  proof (cases "dropWhile is_space l")
    case Nil
    then show ?thesis by (simp add: blank_line_def dropWhile_eq_Nil_conv)
  next
    case (Cons y ys)
    then have "\<not> is_space y"
      by (metis hd_dropWhile list.sel(1) list.simps(3))
    then have "strip l = y # rstrip ys"
      by (simp add: strip_rstrip Cons rstrip_Cons_ink)
    with e show ?thesis by simp
  qed
next
  assume "blank_line l"
  then have d: "dropWhile is_space l = []"
    by (simp add: blank_line_def dropWhile_eq_Nil_conv)
  show "strip l = []"
    by (simp only: strip_def d rev.simps dropWhile.simps)
qed

lemma hash_not_space: "\<not> is_space 35"
  by (simp add: is_space_def)

lemma strip_comment_iff: "startswith (strip l) (py ''#'') \<longleftrightarrow> comment_line l"
proof
  assume s: "startswith (strip l) (py ''#'')"
  then have ne: "strip l \<noteq> []"
    by (auto simp: startswith_def py_def)
  then obtain y ys where d: "dropWhile is_space l = y # ys"
    by (cases "dropWhile is_space l") (auto simp: strip_def)
  then have "\<not> is_space y"
    by (metis hd_dropWhile list.sel(1) list.simps(3))
  then have "strip l = y # rstrip ys"
    by (simp add: strip_rstrip d rstrip_Cons_ink)
  with s have "y = 35"
    by (simp add: startswith_def py_def)
  moreover have "l = takeWhile is_space l @ y # ys"
    using d by (metis takeWhile_dropWhile_id)
  moreover have "\<forall>c \<in> set (takeWhile is_space l). is_space c"
    by (auto dest: set_takeWhileD)
  ultimately show "comment_line l"
    unfolding comment_line_def by blast
next
  assume "comment_line l"
  then obtain ws rest where l: "l = ws @ 35 # rest" and ws: "\<forall>c \<in> set ws. is_space c"
    by (auto simp: comment_line_def)
  then have "dropWhile is_space l = 35 # rest"
    using hash_not_space by (simp add: dropWhile_append2)
  then have "strip l = 35 # rstrip rest"
    using hash_not_space by (simp add: strip_rstrip rstrip_Cons_ink)
  then show "startswith (strip l) (py ''#'')"
    by (simp add: startswith_def py_def)
qed

lemma count_code_lines_eq: "count_code_lines ls = length (filter code_line ls)"
  by (simp add: count_code_lines_def code_line_def [abs_def] strip_empty_iff strip_comment_iff)

lemma count_comment_lines_eq: "count_comment_lines ls = length (filter comment_line ls)"
  by (simp add: count_comment_lines_def strip_comment_iff)

lemma readlines_not_Nil: "s \<noteq> [] \<Longrightarrow> readlines s \<noteq> []"
  by (cases s) (auto split: list.splits)

lemma readlines_lines:
  "concat (readlines s) = s
   \<and> (\<forall>l \<in> set (readlines s). l \<noteq> [] \<and> NL \<notin> set (butlast l))
   \<and> (\<forall>l \<in> set (butlast (readlines s)). last l = NL)"
proof (induction s)
  case Nil
  show ?case by simp
next
  case (Cons c cs)
  show ?case
  proof (cases "c = NL")
    case True
    with Cons show ?thesis by (auto simp: readlines_not_Nil)
  next
    case False
    show ?thesis
    proof (cases "readlines cs")
      case Nil
      with Cons False show ?thesis by auto
    next
      case (Cons l ls)
      with Cons.IH False show ?thesis
        by (auto split: if_splits)
    qed
  qed
qed

lemma analyze_complexity_issues:
  "issues (analyze_complexity env fs ps self)
     = issues self @ concat (map (complexity_issues_of env fs) ps)"
proof (induction ps arbitrary: self)
  case Nil
  show ?case by simp
next
  case (Cons p ps)
  show ?case
    by (simp add: Cons complexity_issues_of_def analyze_file_issues file_complexity_issues_def
        log_issue_def split: option.splits)
qed

lemma filter_concat_own:
  assumes "distinct ps" and "p \<in> set ps"
    and "\<And>q i. i \<in> set (f q) \<Longrightarrow> key i = q"
  shows "filter (\<lambda>i. Q i \<and> key i = p) (concat (map f ps)) = filter Q (f p)"
  using assms(1,2)
proof (induction ps)
  case Nil
  then show ?case by simp
next
  case (Cons q qs)
  have other: "filter (\<lambda>i. Q i \<and> key i = p) (f r) = []" if "r \<noteq> p" for r
    using assms(3) [of _ r] that by (auto simp: filter_empty_conv)
  have own: "filter (\<lambda>i. Q i \<and> key i = p) (f p) = filter Q (f p)"
    using assms(3) [of _ p] by (auto intro: filter_cong)
  show ?case
  proof (cases "q = p")
    case True
    with Cons.prems have "p \<notin> set qs" by simp
    then have "filter (\<lambda>i. Q i \<and> key i = p) (concat (map f qs)) = []"
      using other by (induction qs) auto
    with True own show ?thesis by simp
  next
    case False
    with Cons other [of q] show ?thesis by simp
  qed
qed

lemma complexity_issues_of_file: "i \<in> set (complexity_issues_of env fs q) \<Longrightarrow> issue_file i = q"
  by (auto simp: complexity_issues_of_def file_complexity_issues_def
      split: option.splits if_splits)

lemma readlines_block:
  assumes "NL \<notin> set l"
  shows "readlines (concat (replicate n (l @ [NL])) @ s) = replicate n (l @ [NL]) @ readlines s"
proof (induction n)
  case 0
  show ?case by simp
next
  case (Suc n)
  have "readlines (l @ NL # (concat (replicate n (l @ [NL])) @ s))
      = (l @ [NL]) # readlines (concat (replicate n (l @ [NL])) @ s)"
    using assms by (rule readlines_line)
  with Suc show ?case by simp
qed

lemma readlines_mixed_file:
  "readlines (mixed_file a b c)
     = replicate a (py ''echo ok\<newline>'') @ replicate b (py ''  # note\<newline>'')
       @ replicate c (py '' \<newline>'')"
proof -
  have l: "py ''echo ok\<newline>'' = py ''echo ok'' @ [NL]" "NL \<notin> set (py ''echo ok'')"
    "py ''  # note\<newline>'' = py ''  # note'' @ [NL]" "NL \<notin> set (py ''  # note'')"
    "py '' \<newline>'' = py '' '' @ [NL]" "NL \<notin> set (py '' '')"
    by (simp_all add: py_def)
  have "readlines (concat (replicate c (py '' '' @ [NL])) @ []) = replicate c (py '' '' @ [NL]) @ readlines []"
    using l(6) by (rule readlines_block)
  then show ?thesis
    unfolding mixed_file_def l(1,3,5)
    by (simp add: readlines_block l(2,4,6))
qed

lemma sample_lines:
  "code_line (py ''echo ok\<newline>'')" "\<not> comment_line (py ''echo ok\<newline>'')"
  "\<not> code_line (py ''  # note\<newline>'')" "comment_line (py ''  # note\<newline>'')"
  "\<not> code_line (py '' \<newline>'')" "\<not> comment_line (py '' \<newline>'')"
  by (simp_all add: code_line_def strip_empty_iff [symmetric] strip_comment_iff [symmetric]
      startswith_def strip_def py_def is_space_def)

lemma mixed_file_counts:
  "length (filter code_line (readlines (mixed_file a b c))) = a"
  "length (filter comment_line (readlines (mixed_file a b c))) = b"
  "length (readlines (mixed_file a b c)) = a + b + c"
  by (simp_all add: readlines_mixed_file sample_lines)

lemma audit_project_reads:
  "read_text no_faults audit_project (py ''big.sh'') = Some (mixed_file 301 40 10)"
  "read_text no_faults audit_project (py ''notes.sh'') = Some (mixed_file 0 301 0)"
  "read_text no_faults audit_project (py ''mid.sh'') = Some (mixed_file 250 0 0)"
  "read_text no_faults audit_project (py ''small.sh'') = Some (mixed_file 150 0 60)"
  "read_text no_faults audit_project (py ''even.sh'') = Some (mixed_file 54 6 0)"
  "read_text no_faults audit_project (py ''sparse.sh'') = Some (mixed_file 55 5 0)"
  by (simp_all add: read_text_def no_faults_def audit_project_def py_def)

lemma audit_files_distinct: "distinct audit_files"
  by (simp add: audit_files_def py_def)

lemma audit_files_members:
  "py ''big.sh'' \<in> set audit_files" "py ''notes.sh'' \<in> set audit_files"
  "py ''mid.sh'' \<in> set audit_files" "py ''small.sh'' \<in> set audit_files"
  "py ''even.sh'' \<in> set audit_files" "py ''sparse.sh'' \<in> set audit_files"
  by (simp_all add: audit_files_def)

text \<open>
  C9. The scanned files are distinct paths. For a scanned file that can be read, its lines
  being the pieces of its content that end with a newline (the last perhaps without one),
  with \<open>code_lines\<close> the number of its lines that are neither blank nor comments: above 300
  the one complexity issue on the file is HIGH, above 200 and up to 300 it is MEDIUM, up
  to 200 there is none; and a LOW\_DOCUMENTATION issue is logged on the file, once,
  exactly when the file has more than 50 lines and the quotient of comment lines and lines
  is below one tenth.
\<close>

theorem complexity_thresholds:
  assumes "distinct shell_files" and "p \<in> set shell_files"
    and "read_text env fs p = Some content"
  shows "let lines = readlines content;
             code_lines = length (filter code_line lines);
             comment_lines = length (filter comment_line lines);
             new = new_issues self (analyze_complexity env fs shell_files self);
             complexity = filter (\<lambda>i. category i = COMPLEX_FILE \<and> issue_file i = p) new;
             documentation = filter (\<lambda>i. category i = LOW_DOCUMENTATION \<and> issue_file i = p) new
         in concat lines = content
          \<and> (\<forall>l \<in> set lines. l \<noteq> [] \<and> NL \<notin> set (butlast l))
          \<and> (\<forall>l \<in> set (butlast lines). last l = NL)
          \<and> (300 < code_lines \<longrightarrow>
               complexity = [\<lparr>severity = HIGH, category = COMPLEX_FILE, issue_file = p,
                               description = HighComplexity code_lines\<rparr>])
          \<and> (200 < code_lines \<and> code_lines \<le> 300 \<longrightarrow>
               complexity = [\<lparr>severity = MEDIUM, category = COMPLEX_FILE, issue_file = p,
                               description = MediumComplexity code_lines\<rparr>])
          \<and> (code_lines \<le> 200 \<longrightarrow> complexity = [])
          \<and> (50 < length lines \<and> real comment_lines / real (length lines) < 1 / 10 \<longrightarrow>
               documentation = [\<lparr>severity = LOW, category = LOW_DOCUMENTATION, issue_file = p,
                                  description = LowCommentRatio comment_lines (length lines)\<rparr>])
          \<and> (\<not> (50 < length lines \<and> real comment_lines / real (length lines) < 1 / 10) \<longrightarrow>
               documentation = [])"
proof -
  have r: "50 < length (readlines content) \<Longrightarrow>
      (real (count_comment_lines (readlines content)) / real (length (readlines content)) < 1 / 10)
      = (10 * count_comment_lines (readlines content) < length (readlines content))"
    by (intro low_ratio) auto
  have new: "new_issues self (analyze_complexity env fs shell_files self)
      = concat (map (complexity_issues_of env fs) shell_files)"
    by (simp add: new_issues_def analyze_complexity_issues)
  have own: "filter (\<lambda>i. Q i \<and> issue_file i = p)
      (concat (map (complexity_issues_of env fs) shell_files))
      = filter Q (file_complexity_issues p content)" for Q
    using filter_concat_own [OF assms(1,2), of "complexity_issues_of env fs" issue_file Q]
      complexity_issues_of_file assms(3)
    by (simp add: complexity_issues_of_def)
  show ?thesis
    using r readlines_lines [of content]
    unfolding Let_def new own
    by (auto simp: file_complexity_issues_def count_code_lines_eq [symmetric]
        count_comment_lines_eq [symmetric])
qed

theorem complexity_thresholds_witness:
  "filter (\<lambda>i. category i = COMPLEX_FILE \<and> issue_file i = py ''big.sh'')
     (new_issues fresh (analyze_complexity no_faults audit_project audit_files fresh))
     = [\<lparr>severity = HIGH, category = COMPLEX_FILE, issue_file = py ''big.sh'',
          description = HighComplexity 301\<rparr>]
   \<and> filter (\<lambda>i. category i = COMPLEX_FILE \<and> issue_file i = py ''notes.sh'')
     (new_issues fresh (analyze_complexity no_faults audit_project audit_files fresh)) = []
   \<and> filter (\<lambda>i. category i = COMPLEX_FILE \<and> issue_file i = py ''mid.sh'')
     (new_issues fresh (analyze_complexity no_faults audit_project audit_files fresh))
     = [\<lparr>severity = MEDIUM, category = COMPLEX_FILE, issue_file = py ''mid.sh'',
          description = MediumComplexity 250\<rparr>]
   \<and> filter (\<lambda>i. category i = COMPLEX_FILE \<and> issue_file i = py ''small.sh'')
     (new_issues fresh (analyze_complexity no_faults audit_project audit_files fresh)) = []
   \<and> filter (\<lambda>i. category i = LOW_DOCUMENTATION \<and> issue_file i = py ''even.sh'')
     (new_issues fresh (analyze_complexity no_faults audit_project audit_files fresh)) = []
   \<and> filter (\<lambda>i. category i = LOW_DOCUMENTATION \<and> issue_file i = py ''sparse.sh'')
     (new_issues fresh (analyze_complexity no_faults audit_project audit_files fresh))
     = [\<lparr>severity = LOW, category = LOW_DOCUMENTATION, issue_file = py ''sparse.sh'',
          description = LowCommentRatio 5 60\<rparr>]
   \<and> filter (\<lambda>i. category i = LOW_DOCUMENTATION \<and> issue_file i = py ''big.sh'')
     (new_issues fresh (analyze_complexity no_faults audit_project audit_files fresh)) = []"
  using
    complexity_thresholds [OF audit_files_distinct audit_files_members(1) audit_project_reads(1),
      of fresh]
    complexity_thresholds [OF audit_files_distinct audit_files_members(2) audit_project_reads(2),
      of fresh]
    complexity_thresholds [OF audit_files_distinct audit_files_members(3) audit_project_reads(3),
      of fresh]
    complexity_thresholds [OF audit_files_distinct audit_files_members(4) audit_project_reads(4),
      of fresh]
    complexity_thresholds [OF audit_files_distinct audit_files_members(5) audit_project_reads(5),
      of fresh]
    complexity_thresholds [OF audit_files_distinct audit_files_members(6) audit_project_reads(6),
      of fresh]
  by (simp add: Let_def mixed_file_counts)


section \<open>The audit: duplicate functions\<close>

lemma map_of_dict_append:
  "map_of (dict_append d k v) = (map_of d)(k \<mapsto> entries d k @ [v])"
  by (induction d k v rule: dict_append.induct) (auto simp: entries_def fun_eq_iff)

lemma entries_dict_append:
  "entries (dict_append d k v) n = entries d n @ (if n = k then [v] else [])"
  by (simp add: entries_def map_of_dict_append)

lemma register_functions_entries:
  "entries (duplicate_functions (register_functions self names p)) n
     = entries (duplicate_functions self) n @ replicate (count_list names n) p"
proof (induction names arbitrary: self)
  case Nil
  show ?case by simp
next
  case (Cons a names)
  show ?case
    by (simp add: Cons entries_dict_append replicate_append_same)
qed

lemma register_functions_issues [simp]:
  "issues (register_functions self names p) = issues self"
  by (induction names arbitrary: self) auto

lemma scan_functions_entries:
  "entries (duplicate_functions (scan_functions env fs ps self)) n
     = entries (duplicate_functions self) n @ concat (map (occurrences env fs n) ps)"
proof (induction ps arbitrary: self)
  case Nil
  show ?case by simp
next
  case (Cons p ps)
  show ?case
    by (simp add: Cons occurrences_def register_functions_entries log_issue_def
        split: option.splits)
qed

lemma report_issues_mono:
  "set (issues self) \<subseteq> set (issues (report_duplicate_functions items self))"
proof (induction items arbitrary: self)
  case Nil
  show ?case by simp
next
  case (Cons a items)
  obtain n fs where a: "a = (n, fs)" by (cases a)
  show ?case
    using Cons [of "log_issue self MEDIUM DUPLICATE_FUNCTION (hd fs)
        (FunctionDefinedInMultipleFiles n fs)"] Cons [of self]
    by (auto simp: a log_issue_def)
qed

lemma report_duplicate_functions_logs:
  assumes "(n, fs) \<in> set items" and "1 < length fs"
  shows "\<lparr>severity = MEDIUM, category = DUPLICATE_FUNCTION, issue_file = hd fs,
           description = FunctionDefinedInMultipleFiles n fs\<rparr>
         \<in> set (issues (report_duplicate_functions items self))"
  using assms
proof (induction items arbitrary: self)
  case Nil
  then show ?case by simp
next
  case (Cons a items)
  show ?case
  proof (cases "a = (n, fs)")
    case True
    have "\<lparr>severity = MEDIUM, category = DUPLICATE_FUNCTION, issue_file = hd fs,
           description = FunctionDefinedInMultipleFiles n fs\<rparr>
         \<in> set (issues (log_issue self MEDIUM DUPLICATE_FUNCTION (hd fs)
              (FunctionDefinedInMultipleFiles n fs)))"
      by (simp add: log_issue_def)
    then show ?thesis
      using True Cons.prems(2) report_issues_mono by (auto simp del: One_nat_def)
  next
    case False
    with Cons show ?thesis by (cases a) auto
  qed
qed

lemma entries_in_items: "entries d n \<noteq> [] \<Longrightarrow> (n, entries d n) \<in> set d"
  by (auto simp: entries_def split: option.splits dest: map_of_SomeD)

lemma report_keeps_registry [simp]:
  "duplicate_functions (report_duplicate_functions items self) = duplicate_functions self"
  by (induction items self rule: report_duplicate_functions.induct) (auto simp: log_issue_def)

lemma find_duplicate_functions_entries:
  "entries (duplicate_functions (find_duplicate_functions env fs ps self)) n
     = entries (duplicate_functions self) n @ concat (map (occurrences env fs n) ps)"
  by (simp add: find_duplicate_functions_def Let_def scan_functions_entries)

lemma find_duplicate_functions_logs:
  assumes "1 < length (entries (duplicate_functions (scan_functions env fs ps self)) n)"
  shows "\<lparr>severity = MEDIUM, category = DUPLICATE_FUNCTION,
           issue_file = hd (entries (duplicate_functions (scan_functions env fs ps self)) n),
           description = FunctionDefinedInMultipleFiles n
             (entries (duplicate_functions (scan_functions env fs ps self)) n)\<rparr>
         \<in> set (issues (find_duplicate_functions env fs ps self))"
proof -
  let ?d = "duplicate_functions (scan_functions env fs ps self)"
  from assms have "entries ?d n \<noteq> []" by auto
  then have "(n, entries ?d n) \<in> set ?d" by (rule entries_in_items)
  then show ?thesis
    unfolding find_duplicate_functions_def Let_def
    using assms by (rule report_duplicate_functions_logs)
qed

lemma twice_defined_findall: "findall True twice_defined = [py ''log'', py ''log'']"
  by (simp add: twice_defined_def function_pattern_match_def py_def is_space_def
      is_ident_start_def is_ident_char_def)

lemma concat_only_one:
  assumes "distinct ps" and "p \<in> set ps" and "\<forall>q \<in> set ps. q \<noteq> p \<longrightarrow> f q = []"
  shows "concat (map f ps) = f p"
  using assms
proof (induction ps)
  case Nil
  then show ?case by simp
next
  case (Cons q qs)
  show ?case
  proof (cases "q = p")
    case True
    with Cons.prems have "\<forall>r \<in> set qs. f r = []" by auto
    then have "concat (map f qs) = []" by simp
    with True show ?thesis by simp
  next
    case False
    with Cons show ?thesis by simp
  qed
qed

lemma count_list_replicate_same: "count_list (replicate k p) p = k"
  by (induction k) auto

lemma count_list_concat_member:
  "p \<in> set ps \<Longrightarrow> count_list (f p) x \<le> count_list (concat (map f ps)) x"
  by (induction ps) auto

text \<open>
  C10. With an empty registry at the start and any list of scanned files: the files
  recorded for a name are the files that could be read, each as many times as the name's
  header occurs in it. When the header of a name occurs at least twice in one scanned
  file, a duplicate-function issue is logged for the name, on the first file recorded and
  listing all of them, that file at least once per occurrence; and when no other scanned
  file has the header (the files being distinct paths), the issue is on that file and
  lists it alone, once per occurrence.
\<close>

theorem duplicate_function_within_one_file:
  assumes "duplicate_functions self = []"
    and "p \<in> set shell_files"
    and "read_text env fs p = Some content"
    and "2 \<le> count_list (findall True content) name"
  shows "let after = find_duplicate_functions env fs shell_files self;
             recorded = concat (map (occurrences env fs name) shell_files)
         in (\<forall>n. entries (duplicate_functions after) n
                  = concat (map (occurrences env fs n) shell_files))
          \<and> \<lparr>severity = MEDIUM, category = DUPLICATE_FUNCTION, issue_file = hd recorded,
               description = FunctionDefinedInMultipleFiles name recorded\<rparr>
             \<in> set (issues after)
          \<and> count_list (findall True content) name \<le> count_list recorded p
          \<and> (distinct shell_files
               \<and> (\<forall>q \<in> set shell_files. q \<noteq> p \<longrightarrow> occurrences env fs name q = [])
              \<longrightarrow> recorded = replicate (count_list (findall True content) name) p
                \<and> hd recorded = p)"
proof -
  let ?k = "count_list (findall True content) name"
  let ?rec = "concat (map (occurrences env fs name) shell_files)"
  have e0: "entries (duplicate_functions self) n = []" for n
    using assms(1) by (simp add: entries_def)
  have op: "occurrences env fs name p = replicate ?k p"
    using assms(3) by (simp add: occurrences_def)
  have a: "\<forall>n. entries (duplicate_functions (find_duplicate_functions env fs shell_files self)) n
      = concat (map (occurrences env fs n) shell_files)"
    by (simp add: find_duplicate_functions_entries e0)
  have c: "?k \<le> count_list ?rec p"
    using count_list_concat_member [OF assms(2), of "occurrences env fs name" p]
    by (simp add: op count_list_replicate_same)
  have sc: "entries (duplicate_functions (scan_functions env fs shell_files self)) name = ?rec"
    by (simp add: scan_functions_entries e0)
  have "?k \<le> length ?rec"
    using c count_le_length [of ?rec p] by simp
  with assms(4) have "1 < length ?rec" by simp
  then have b: "\<lparr>severity = MEDIUM, category = DUPLICATE_FUNCTION, issue_file = hd ?rec,
               description = FunctionDefinedInMultipleFiles name ?rec\<rparr>
             \<in> set (issues (find_duplicate_functions env fs shell_files self))"
    using find_duplicate_functions_logs [of env fs shell_files self name]
    by (simp only: sc)
  have d: "?rec = replicate ?k p \<and> hd ?rec = p"
    if "distinct shell_files"
      "\<forall>q \<in> set shell_files. q \<noteq> p \<longrightarrow> occurrences env fs name q = []"
  proof -
    have "?rec = replicate ?k p"
      using concat_only_one [OF that(1) assms(2) that(2)] op by simp
    moreover have "hd (replicate ?k p) = p"
      using assms(4) by (cases ?k) auto
    ultimately show ?thesis by simp
  qed
  show ?thesis
    unfolding Let_def using a b c d by blast
qed

theorem duplicate_function_within_one_file_witness:
  "issues (find_duplicate_functions no_faults two_scripts [py ''b.sh'', py ''a.sh''] fresh)
     = [\<lparr>severity = MEDIUM, category = DUPLICATE_FUNCTION, issue_file = py ''a.sh'',
          description = FunctionDefinedInMultipleFiles (py ''log'') [py ''a.sh'', py ''a.sh'']\<rparr>]
   \<and> concat (map (occurrences no_faults two_scripts (py ''log'')) [py ''b.sh'', py ''a.sh''])
     = replicate (count_list (findall True twice_defined) (py ''log'')) (py ''a.sh'')
   \<and> entries (duplicate_functions
        (find_duplicate_functions no_faults two_scripts [py ''b.sh'', py ''a.sh''] fresh))
        (py ''log'') = [py ''a.sh'', py ''a.sh'']"
proof -
  have a: "duplicate_functions fresh = []"
    by (simp add: fresh_def)
  have m: "py ''a.sh'' \<in> set [py ''b.sh'', py ''a.sh'']"
    by simp
  have b: "read_text no_faults two_scripts (py ''a.sh'') = Some twice_defined"
    by (simp add: read_text_def no_faults_def two_scripts_def py_def)
  have c: "2 \<le> count_list (findall True twice_defined) (py ''log'')"
    by (simp add: twice_defined_findall)
  have fb: "findall True (py ''main() {\<newline>}\<newline>'') = [py ''main'']"
    by (simp add: function_pattern_match_def py_def is_space_def is_ident_start_def
        is_ident_char_def)
  have rb: "read_text no_faults two_scripts (py ''b.sh'') = Some (py ''main() {\<newline>}\<newline>'')"
    by (simp add: read_text_def no_faults_def two_scripts_def py_def)
  have o: "occurrences no_faults two_scripts (py ''log'') (py ''b.sh'') = []"
    "occurrences no_faults two_scripts (py ''log'') (py ''a.sh'') = [py ''a.sh'', py ''a.sh'']"
    by (simp_all add: occurrences_def rb b fb twice_defined_findall) (simp_all add: py_def)
  have d: "distinct [py ''b.sh'', py ''a.sh'']"
    by (simp add: py_def)
  have i: "issues (find_duplicate_functions no_faults two_scripts [py ''b.sh'', py ''a.sh''] fresh)
     = [\<lparr>severity = MEDIUM, category = DUPLICATE_FUNCTION, issue_file = py ''a.sh'',
          description = FunctionDefinedInMultipleFiles (py ''log'') [py ''a.sh'', py ''a.sh'']\<rparr>]"
    by (simp add: find_duplicate_functions_def rb b fb twice_defined_findall fresh_def
        log_issue_def) (simp add: py_def)
  from duplicate_function_within_one_file [OF a m b c] i o d
  show ?thesis
    by (simp add: Let_def twice_defined_findall)
qed


section \<open>The audit: duplicate files\<close>

lemma dict_append_keys: "distinct (map fst d) \<Longrightarrow> distinct (map fst (dict_append d k v))"
proof (induction d k v rule: dict_append.induct)
  case (1 k v)
  show ?case by simp
next
  case (2 k' vs d k v)
  have "fst ` set (dict_append d k v) \<subseteq> insert k (fst ` set d)"
    by (induction d k v rule: dict_append.induct) auto
  with 2 show ?case by auto
qed

lemma hash_files_result:
  "hash_files env fs md5 ps d self = (d', self') \<Longrightarrow>
   (\<forall>h. entries d' h = entries d h @ hash_group env fs md5 ps h)
   \<and> (distinct (map fst d) \<longrightarrow> distinct (map fst d'))
   \<and> issues self' = issues self @ access_issues env fs ps
   \<and> redundant_files self' = redundant_files self"
proof (induction ps arbitrary: d self)
  case Nil
  then show ?case by (simp add: hash_group_def access_issues_def)
next
  case (Cons p ps)
  show ?case
  proof (cases "read_text env fs p")
    case None
    with Cons.prems have
      "hash_files env fs md5 ps d (log_issue self LOW FILE_ACCESS p CannotReadFile) = (d', self')"
      by simp
    from Cons.IH [OF this] None show ?thesis
      by (simp add: hash_group_def access_issues_def content_hash_of_def log_issue_def)
  next
    case (Some c)
    with Cons.prems have "hash_files env fs md5 ps (dict_append d (md5 c) p) self = (d', self')"
      by simp
    from Cons.IH [OF this] Some show ?thesis
      by (auto simp: hash_group_def access_issues_def content_hash_of_def entries_dict_append
          dict_append_keys)
  qed
qed

lemma report_duplicate_files_result:
  "issues (report_duplicate_files d self) = issues self @ duplicate_issues_of d
   \<and> redundant_files (report_duplicate_files d self) = redundant_files self @ redundant_of d"
proof (induction d arbitrary: self)
  case Nil
  show ?case by (simp add: duplicate_issues_of_def redundant_of_def)
next
  case (Cons a d)
  obtain h g where a: "a = (h, g)" by (cases a)
  show ?case
    using Cons [of self]
      Cons [of "log_issue (self\<lparr>redundant_files := redundant_files self @ tl g\<rparr>)
        MEDIUM DUPLICATE_FILES (hd g) (DuplicateFilesFound g)"]
    by (simp add: a duplicate_issues_of_def redundant_of_def log_issue_def duplicate_issue_def)
qed

lemma filter_concat_one:
  assumes "distinct (map fst d)" and "map_of d h = Some g"
    and "\<And>h' g'. (h', g') \<in> set d \<Longrightarrow> h' \<noteq> h \<Longrightarrow> filter P (f g') = []"
  shows "filter P (concat (map (\<lambda>(h', g'). f g') d)) = filter P (f g)"
  using assms
proof (induction d)
  case Nil
  then show ?case by simp
next
  case (Cons a d)
  obtain h' g' where a: "a = (h', g')" by (cases a)
  show ?case
  proof (cases "h' = h")
    case True
    with Cons.prems(2) a have g: "g' = g" by simp
    have "h \<notin> fst ` set d"
      using Cons.prems(1) a True by simp
    then have "filter P (f y) = []" if "(x, y) \<in> set d" for x y
      using that Cons.prems(3) [of x y] by force
    then have "filter P (concat (map (\<lambda>(h', g'). f g') d)) = []"
      by (induction d) auto
    with a g show ?thesis by simp
  next
    case False
    have d: "distinct (map fst d)"
      using Cons.prems(1) by simp
    have m: "map_of d h = Some g"
      using Cons.prems(2) a False by simp
    have z: "filter P (f g') = []"
      using Cons.prems(3) [of h' g'] a False by simp
    have "filter P (concat (map (\<lambda>(h', g'). f g') d)) = filter P (f g)"
    proof (rule Cons.IH [OF d m])
      fix x y
      assume "(x, y) \<in> set d" and "x \<noteq> h"
      then show "filter P (f y) = []"
        using Cons.prems(3) [of x y] by simp
    qed
    with z a show ?thesis by simp
  qed
qed

lemma three_files_group:
  "hash_group no_faults three_files (\<lambda>c. c) [py ''a.sh'', py ''b.sh'', py ''c.sh''] (py ''x'')
     = [py ''a.sh'', py ''c.sh'']"
  by (simp add: hash_group_def content_hash_of_def read_text_def no_faults_def three_files_def
      py_def)

lemma three_files_run:
  "find_duplicate_files no_faults three_files (\<lambda>c. c) [py ''a.sh'', py ''b.sh'', py ''c.sh''] fresh
     = fresh\<lparr>issues := [\<lparr>severity = MEDIUM, category = DUPLICATE_FILES, issue_file = py ''a.sh'',
                 description = DuplicateFilesFound [py ''a.sh'', py ''c.sh'']\<rparr>],
             redundant_files := [py ''c.sh'']\<rparr>"
  by (simp add: find_duplicate_files_def read_text_def no_faults_def three_files_def fresh_def
      log_issue_def py_def)

text \<open>
  C7. The scanned files are distinct paths. For every hash that more than one readable
  file has, with \<open>members\<close> the files of that hash in traversal order: the files the call
  adds to \<open>redundant_files\<close> that have this hash are the members after the first, in
  order; the first member is not added; and among the issues the call logs, the
  duplicate-files issues on a member are one issue, on the first member, listing all
  members.
\<close>

theorem duplicate_files_first_is_canonical:
  assumes "distinct shell_files"
    and "1 < length (hash_group env fs md5 shell_files h)"
  shows "let after = find_duplicate_files env fs md5 shell_files self;
             members = hash_group env fs md5 shell_files h
         in filter (\<lambda>p. content_hash_of env fs md5 p = Some h) (new_redundant self after)
              = tl members
          \<and> hd members \<notin> set (new_redundant self after)
          \<and> filter (\<lambda>i. category i = DUPLICATE_FILES \<and> issue_file i \<in> set members)
               (new_issues self after)
              = [\<lparr>severity = MEDIUM, category = DUPLICATE_FILES, issue_file = hd members,
                   description = DuplicateFilesFound members\<rparr>]"
proof -
  let ?H = "\<lambda>p. content_hash_of env fs md5 p = Some h"
  define G where "G = hash_group env fs md5 shell_files h"
  obtain d self1 where hf: "hash_files env fs md5 shell_files [] self = (d, self1)"
    by (cases "hash_files env fs md5 shell_files [] self")
  from hash_files_result [OF hf]
  have ent: "\<And>k. entries d k = hash_group env fs md5 shell_files k"
    and dist: "distinct (map fst d)"
    and iss1: "issues self1 = issues self @ access_issues env fs shell_files"
    and red1: "redundant_files self1 = redundant_files self"
    by (simp_all add: entries_def)
  have after: "find_duplicate_files env fs md5 shell_files self = report_duplicate_files d self1"
    by (simp add: find_duplicate_files_def hf)
  have nr: "new_redundant self (report_duplicate_files d self1) = redundant_of d"
    by (simp add: new_redundant_def report_duplicate_files_result red1)
  have ni: "new_issues self (report_duplicate_files d self1)
      = access_issues env fs shell_files @ duplicate_issues_of d"
    by (simp add: new_issues_def report_duplicate_files_result iss1)
  have G1: "1 < length G"
    using assms(2) by (simp add: G_def)
  then have Gne: "G \<noteq> []" by auto
  have "entries d h = G"
    by (simp add: ent G_def)
  with Gne have mo: "map_of d h = Some G"
    by (auto simp: entries_def split: option.splits)
  have grp: "g = hash_group env fs md5 shell_files k" if "(k, g) \<in> set d" for k g
  proof -
    from that dist have "map_of d k = Some g" by simp
    then show ?thesis using ent [of k] by (simp add: entries_def)
  qed
  have other: "\<not> ?H p" if "(k, g) \<in> set d" "k \<noteq> h" "p \<in> set g" for k g p
    using that grp [OF that(1)] by (auto simp: hash_group_def)
  have dG: "distinct G"
    using assms(1) by (simp add: G_def hash_group_def)
  have allG: "\<And>p. p \<in> set G \<Longrightarrow> ?H p"
    by (simp add: G_def hash_group_def)
  have r1: "filter ?H (redundant_of d) = filter ?H (if 1 < length G then tl G else [])"
    unfolding redundant_of_def
  proof (rule filter_concat_one [OF dist mo])
    fix k g
    assume kg: "(k, g) \<in> set d" "k \<noteq> h"
    have "\<not> ?H p" if "p \<in> set (tl g)" for p
      using other [OF kg] that by (cases g) auto
    then show "filter ?H (if 1 < length g then tl g else []) = []"
      by (auto simp: filter_empty_conv)
  qed
  have "filter ?H (tl G) = tl G"
    using allG Gne by (cases G) (auto simp: filter_id_conv)
  with r1 G1 have a: "filter ?H (redundant_of d) = tl G" by simp
  have b: "hd G \<notin> set (redundant_of d)"
  proof
    assume "hd G \<in> set (redundant_of d)"
    moreover have "?H (hd G)"
      using allG Gne by simp
    ultimately have "hd G \<in> set (filter ?H (redundant_of d))" by simp
    with a have "hd G \<in> set (tl G)" by simp
    with dG Gne show False by (cases G) auto
  qed
  let ?Q = "\<lambda>i. category i = DUPLICATE_FILES \<and> issue_file i \<in> set G"
  have "filter ?Q (duplicate_issues_of d)
      = filter ?Q (if 1 < length G then [duplicate_issue G] else [])"
    unfolding duplicate_issues_of_def
  proof (rule filter_concat_one [OF dist mo])
    fix k g
    assume kg: "(k, g) \<in> set d" "k \<noteq> h"
    have "hd g \<notin> set G" if "1 < length g"
    proof
      assume "hd g \<in> set G"
      then have "?H (hd g)" by (rule allG)
      moreover have "hd g \<in> set g" using that by (cases g) auto
      ultimately show False using other [OF kg] by blast
    qed
    then show "filter ?Q (if 1 < length g then [duplicate_issue g] else []) = []"
      by (simp add: duplicate_issue_def)
  qed
  moreover have "filter ?Q (access_issues env fs shell_files) = []"
    by (auto simp: access_issues_def filter_empty_conv)
  ultimately have c: "filter ?Q (access_issues env fs shell_files @ duplicate_issues_of d)
      = [duplicate_issue G]"
    using G1 Gne by (simp add: duplicate_issue_def)
  show ?thesis
    using a b c
    by (simp add: Let_def after nr ni G_def [symmetric] duplicate_issue_def)
qed

theorem duplicate_files_first_is_canonical_witness:
  "new_redundant fresh
     (find_duplicate_files no_faults three_files (\<lambda>c. c) [py ''a.sh'', py ''b.sh'', py ''c.sh'']
        fresh) = [py ''c.sh'']
   \<and> filter (\<lambda>i. category i = DUPLICATE_FILES
                \<and> issue_file i \<in> set [py ''a.sh'', py ''c.sh''])
       (new_issues fresh
         (find_duplicate_files no_faults three_files (\<lambda>c. c)
            [py ''a.sh'', py ''b.sh'', py ''c.sh''] fresh))
     = [\<lparr>severity = MEDIUM, category = DUPLICATE_FILES, issue_file = py ''a.sh'',
          description = DuplicateFilesFound [py ''a.sh'', py ''c.sh'']\<rparr>]
   \<and> py ''a.sh'' \<notin> set (new_redundant fresh
         (find_duplicate_files no_faults three_files (\<lambda>c. c)
            [py ''a.sh'', py ''b.sh'', py ''c.sh''] fresh))"
proof -
  have d: "distinct [py ''a.sh'', py ''b.sh'', py ''c.sh'']"
    by (simp add: py_def)
  have l: "1 < length (hash_group no_faults three_files (\<lambda>c. c)
      [py ''a.sh'', py ''b.sh'', py ''c.sh''] (py ''x''))"
    by (simp add: three_files_group)
  have r: "new_redundant fresh
     (find_duplicate_files no_faults three_files (\<lambda>c. c) [py ''a.sh'', py ''b.sh'', py ''c.sh'']
        fresh) = [py ''c.sh'']"
    by (simp add: three_files_run new_redundant_def) (simp add: fresh_def)
  from duplicate_files_first_is_canonical [OF d l, of fresh] r
  show ?thesis
    by (simp add: Let_def three_files_group)
qed


section \<open>The audit: unused files\<close>

lemma match_here_iff:
  "match_here ci lit t \<longleftrightarrow> (\<exists>v w. t = v @ w \<and> list_all2 ci lit v)"
proof
  assume "match_here ci lit t"
  then have "t = take (length lit) t @ drop (length lit) t \<and> list_all2 ci lit (take (length lit) t)"
    by (simp add: match_here_def)
  then show "\<exists>v w. t = v @ w \<and> list_all2 ci lit v" by blast
next
  assume "\<exists>v w. t = v @ w \<and> list_all2 ci lit v"
  then obtain v w where t: "t = v @ w" and m: "list_all2 ci lit v" by blast
  from m have "length lit = length v" by (rule list_all2_lengthD)
  with t m show "match_here ci lit t"
    by (simp add: match_here_def)
qed

lemma search_literal_iff: "search_literal ci lit t \<longleftrightarrow> occurs ci lit t"
proof (induction t)
  case Nil
  show ?case by (simp add: occurs_def match_here_iff)
next
  case (Cons c cs)
  have "occurs ci lit (c # cs) \<longleftrightarrow> match_here ci lit (c # cs) \<or> occurs ci lit cs"
  proof
    assume "occurs ci lit (c # cs)"
    then obtain u v w where d: "c # cs = u @ v @ w" "list_all2 ci lit v"
      by (auto simp: occurs_def)
    show "match_here ci lit (c # cs) \<or> occurs ci lit cs"
    proof (cases u)
      case Nil
      with d show ?thesis by (auto simp: match_here_iff)
    next
      case (Cons a u')
      with d have "cs = u' @ v @ w" by simp
      with d(2) show ?thesis by (auto simp: occurs_def)
    qed
  next
    assume "match_here ci lit (c # cs) \<or> occurs ci lit cs"
    then show "occurs ci lit (c # cs)"
    proof
      assume "match_here ci lit (c # cs)"
      then obtain v w where "c # cs = [] @ v @ w" "list_all2 ci lit v"
        by (auto simp: match_here_iff)
      then show ?thesis unfolding occurs_def by blast
    next
      assume "occurs ci lit cs"
      then obtain u v w where "cs = u @ v @ w" "list_all2 ci lit v"
        by (auto simp: occurs_def)
      then have "c # cs = (c # u) @ v @ w" "list_all2 ci lit v" by simp_all
      then show ?thesis unfolding occurs_def by blast
    qed
  qed
  with Cons show ?case by simp
qed

lemma rest_of_line_iff:
  "rest_of_line ci lit t \<longleftrightarrow> (\<exists>g v w. t = g @ v @ w \<and> NL \<notin> set g \<and> list_all2 ci lit v)"
  (is "_ \<longleftrightarrow> ?R t")
proof (induction t)
  case Nil
  show ?case by (simp add: match_here_iff)
next
  case (Cons c cs)
  have "?R (c # cs) \<longleftrightarrow> match_here ci lit (c # cs) \<or> (c \<noteq> NL \<and> ?R cs)"
  proof
    assume "?R (c # cs)"
    then obtain g v w where d: "c # cs = g @ v @ w" "NL \<notin> set g" "list_all2 ci lit v"
      by blast
    show "match_here ci lit (c # cs) \<or> (c \<noteq> NL \<and> ?R cs)"
    proof (cases g)
      case Nil
      with d show ?thesis by (auto simp: match_here_iff)
    next
      case (Cons a g')
      with d have "cs = g' @ v @ w" "NL \<notin> set g'" "c \<noteq> NL" by auto
      with d(3) show ?thesis by blast
    qed
  next
    assume "match_here ci lit (c # cs) \<or> (c \<noteq> NL \<and> ?R cs)"
    then show "?R (c # cs)"
    proof
      assume "match_here ci lit (c # cs)"
      then obtain v w where "c # cs = [] @ v @ w" "list_all2 ci lit v"
        by (auto simp: match_here_iff)
      then show ?thesis by (metis empty_iff list.set(1))
    next
      assume "c \<noteq> NL \<and> ?R cs"
      then obtain g v w where "cs = g @ v @ w" "NL \<notin> set g" "list_all2 ci lit v" "c \<noteq> NL"
        by blast
      then have "c # cs = (c # g) @ v @ w" "NL \<notin> set (c # g)" "list_all2 ci lit v"
        by simp_all
      then show ?thesis by blast
    qed
  qed
  with Cons show ?case by simp
qed

lemma then_here_iff:
  "match_here ci a t \<and> rest_of_line ci b (drop (length a) t) \<longleftrightarrow>
   (\<exists>x g y w. t = x @ g @ y @ w \<and> list_all2 ci a x \<and> NL \<notin> set g \<and> list_all2 ci b y)"
proof
  assume h: "match_here ci a t \<and> rest_of_line ci b (drop (length a) t)"
  then obtain x r where x: "t = x @ r" "list_all2 ci a x"
    by (auto simp: match_here_iff)
  then have "drop (length a) t = r"
    by (auto dest: list_all2_lengthD)
  with h obtain g y w where "r = g @ y @ w" "NL \<notin> set g" "list_all2 ci b y"
    by (auto simp: rest_of_line_iff)
  with x show "\<exists>x g y w. t = x @ g @ y @ w \<and> list_all2 ci a x \<and> NL \<notin> set g \<and> list_all2 ci b y"
    by blast
next
  assume "\<exists>x g y w. t = x @ g @ y @ w \<and> list_all2 ci a x \<and> NL \<notin> set g \<and> list_all2 ci b y"
  then obtain x g y w where d: "t = x @ g @ y @ w" "list_all2 ci a x" "NL \<notin> set g"
    "list_all2 ci b y" by blast
  then have "drop (length a) t = g @ y @ w"
    by (auto dest: list_all2_lengthD)
  moreover have "match_here ci a t"
    using d by (auto simp: match_here_iff)
  ultimately show "match_here ci a t \<and> rest_of_line ci b (drop (length a) t)"
    using d by (auto simp: rest_of_line_iff)
qed

lemma search_then_iff: "search_then ci a b t \<longleftrightarrow> occurs_then ci a b t"
proof (induction t)
  case Nil
  have "search_then ci a b [] \<longleftrightarrow> match_here ci a [] \<and> rest_of_line ci b (drop (length a) [])"
    by simp
  also have "\<dots> \<longleftrightarrow> occurs_then ci a b []"
    unfolding then_here_iff by (auto simp: occurs_def occurs_then_def)
  finally show ?case .
next
  case (Cons c cs)
  let ?H = "\<lambda>t. \<exists>x g y w. t = x @ g @ y @ w \<and> list_all2 ci a x \<and> NL \<notin> set g \<and> list_all2 ci b y"
  have "occurs_then ci a b (c # cs) \<longleftrightarrow> ?H (c # cs) \<or> occurs_then ci a b cs"
  proof
    assume "occurs_then ci a b (c # cs)"
    then obtain u x g y w where d: "c # cs = u @ x @ g @ y @ w" "list_all2 ci a x"
      "NL \<notin> set g" "list_all2 ci b y"
      by (auto simp: occurs_then_def)
    show "?H (c # cs) \<or> occurs_then ci a b cs"
    proof (cases u)
      case Nil
      with d show ?thesis by auto
    next
      case (Cons e u')
      with d have "cs = u' @ x @ g @ y @ w" by simp
      with d show ?thesis unfolding occurs_then_def by blast
    qed
  next
    assume "?H (c # cs) \<or> occurs_then ci a b cs"
    then show "occurs_then ci a b (c # cs)"
    proof
      assume "?H (c # cs)"
      then obtain x g y w where "c # cs = [] @ x @ g @ y @ w" "list_all2 ci a x"
        "NL \<notin> set g" "list_all2 ci b y" by auto
      then show ?thesis unfolding occurs_then_def by blast
    next
      assume "occurs_then ci a b cs"
      then obtain u x g y w where "cs = u @ x @ g @ y @ w" "list_all2 ci a x"
        "NL \<notin> set g" "list_all2 ci b y"
        by (auto simp: occurs_then_def)
      then have "c # cs = (c # u) @ x @ g @ y @ w" "list_all2 ci a x"
        "NL \<notin> set g" "list_all2 ci b y" by simp_all
      then show ?thesis unfolding occurs_then_def by blast
    qed
  qed
  with Cons show ?case
    using then_here_iff [of ci a "c # cs" b] by simp
qed

lemma check_references_result:
  "unused_files (check_references ci ex content ps self)
     = unused_files self @ filter (flagged_unused ci ex content) ps
   \<and> issues (check_references ci ex content ps self)
     = issues self @ map (\<lambda>p. \<lparr>severity = MEDIUM, category = UNUSED_FILE, issue_file = p,
                                 description = FileAppearsUnused\<rparr>)
                       (filter (flagged_unused ci ex content) ps)"
proof (induction ps arbitrary: self)
  case Nil
  show ?case by simp
next
  case (Cons p ps)
  show ?case
    by (simp add: Cons Let_def flagged_unused_def log_issue_def)
qed


lemma helper_flagged:
  "unused_files (check_unused_files ascii_caseless (\<lambda>_. False) no_faults helper_project
     [py ''lib/helper.sh''] fresh) = [py ''lib/helper.sh'']"
  by (simp add: check_unused_files_def helper_project_def read_text_def no_faults_def fresh_def
      path_name_def path_stem_def skip_files_def referenced_def match_here_def ascii_caseless_def
      log_issue_def py_def Let_def)

text \<open>
  C8, as stated: a file is flagged only if its stem occurs nowhere in the corpus. The one
  script of \<open>helper_project\<close> is flagged, and its stem occurs in the corpus (in the script
  itself).
\<close>

theorem unused_counterexample:
  "py ''lib/helper.sh'' \<in> set (unused_files
      (check_unused_files ascii_caseless (\<lambda>_. False) no_faults helper_project
         [py ''lib/helper.sh''] fresh))
   \<and> path_stem (py ''lib/helper.sh'') = py ''helper''
   \<and> sublist (py ''helper'') (all_content no_faults helper_project [py ''lib/helper.sh''])"
  by (simp add: helper_flagged)
    (simp add: helper_project_def read_text_def no_faults_def path_name_def path_stem_def py_def
      sublist_code)

text \<open>
  C8, amended. A scanned file is added to the unused files, and an unused-file issue is
  logged for it, exactly when its name is not an entry point, it is not executable, and
  the corpus holds, letter case aside, none of: \<open>source\<close> followed later on the same line
  by the file's name; \<open>source\<close> followed later on the same line by the stem; a dot followed
  later on the same line by the name; the stem followed at once by \<open>.sh\<close>.
\<close>

theorem unused_iff_no_reference_pattern:
  "(p \<in> set (new_unused self (check_unused_files caseless executable env fs shell_files self))
     \<longleftrightarrow>
     p \<in> set shell_files \<and> path_name p \<notin> skip_files \<and> \<not> executable p
     \<and> \<not> occurs_then caseless (py ''source'') (path_name p) (all_content env fs shell_files)
     \<and> \<not> occurs_then caseless (py ''source'') (path_stem p) (all_content env fs shell_files)
     \<and> \<not> occurs_then caseless (py ''.'') (path_name p) (all_content env fs shell_files)
     \<and> \<not> occurs caseless (path_stem p @ py ''.sh'') (all_content env fs shell_files))
   \<and> (\<lparr>severity = MEDIUM, category = UNUSED_FILE, issue_file = p,
         description = FileAppearsUnused\<rparr>
        \<in> set (new_issues self (check_unused_files caseless executable env fs shell_files self))
      \<longleftrightarrow>
      p \<in> set (new_unused self (check_unused_files caseless executable env fs shell_files self)))"
  using check_references_result
    [of caseless executable "all_content env fs shell_files" shell_files self]
  by (auto simp: new_unused_def new_issues_def check_unused_files_def flagged_unused_def
      referenced_def search_then_iff search_literal_iff)

theorem unused_iff_no_reference_pattern_witness:
  "py ''lib/helper.sh'' \<in> set (new_unused fresh
      (check_unused_files ascii_caseless (\<lambda>_. False) no_faults helper_project
         [py ''lib/helper.sh''] fresh))
   \<and> \<not> occurs ascii_caseless (py ''helper.sh'')
         (all_content no_faults helper_project [py ''lib/helper.sh''])"
proof -
  have "py ''lib/helper.sh'' \<in> set (new_unused fresh
      (check_unused_files ascii_caseless (\<lambda>_. False) no_faults helper_project
         [py ''lib/helper.sh''] fresh))"
    by (simp add: new_unused_def helper_flagged) (simp add: fresh_def)
  moreover have "path_stem (py ''lib/helper.sh'') @ py ''.sh'' = py ''helper.sh''"
    by (simp add: path_stem_def path_name_def py_def)
  ultimately show ?thesis
    using unused_iff_no_reference_pattern [of "py ''lib/helper.sh''" fresh ascii_caseless
      "\<lambda>_. False" no_faults helper_project "[py ''lib/helper.sh'']"]
    by simp
qed


end
